theory Spec2Isabelle
  imports Main "HOL-Library.Word"
begin

unbundle bit_operations_syntax

section \<open>Characters, errors and hashing\<close>

text \<open>
  \<^verbatim>\<open>using C = char\<close>. A character is one byte, kept as an 8-bit word. Where the C++
  promotes a \<^verbatim>\<open>char\<close> to a wider integer the byte is read as a signed value
  (\<open>scast\<close>, \<open>sint\<close>), which is what the x86-64 targets of the library do.
  A \<^verbatim>\<open>uint32_t\<close> is a 32-bit word, a \<^verbatim>\<open>uint16_t\<close> a 16-bit word and
  \<^verbatim>\<open>std::size_t\<close> counters are natural numbers.
\<close>

type_synonym C = "8 word"
type_synonym u32 = "32 word"
type_synonym u16 = "16 word"

text \<open>
  Every way the C++ leaves the normal path is a value: the two \<^verbatim>\<open>throw\<close>
  statements of the containers, and the undefined behaviour of reading the back of an empty
  \<^verbatim>\<open>std::vector\<close>, of following a null pointer and of indexing a
  \<^verbatim>\<open>std::array\<close> out of range (each of which stops a constant evaluation).
\<close>

datatype error = NotFound | EmptyQueue | StackUnderflow | NullDeref | OutOfBounds

definition bind_e :: "error + 'a \<Rightarrow> ('a \<Rightarrow> error + 'b) \<Rightarrow> error + 'b" where
  "bind_e x f = (case x of Inl e \<Rightarrow> Inl e | Inr a \<Rightarrow> f a)"

fun fold_e :: "('a \<Rightarrow> 's \<Rightarrow> error + 's) \<Rightarrow> 'a list \<Rightarrow> 's \<Rightarrow> error + 's" where
  "fold_e f [] s = Inr s"
| "fold_e f (x # xs) s = (case f x s of Inl e \<Rightarrow> Inl e | Inr s' \<Rightarrow> fold_e f xs s')"

text \<open>\<^verbatim>\<open>fnv32\<close>: \<^verbatim>\<open>h *= 16777619; h ^= s[i]\<close>, the \<^verbatim>\<open>char\<close> sign-extended to 32 bits.\<close>

fun fnv32_loop :: "u32 \<Rightarrow> C list \<Rightarrow> u32" where
  "fnv32_loop h [] = h"
| "fnv32_loop h (c # cs) = fnv32_loop ((h * 16777619) XOR scast c) cs"

definition fnv32 :: "C list \<Rightarrow> u32" where
  "fnv32 s = fnv32_loop 0x811c9dc5 s"

definition hash_char :: "C \<Rightarrow> u32" where
  "hash_char v = fnv32 [v]"

definition hash_u32 :: "u32 \<Rightarrow> u32" where
  "hash_u32 v = fnv32 [ucast (v AND 0xff), ucast (drop_bit 8 v AND 0xff),
                       ucast (drop_bit 16 v AND 0xff), ucast (drop_bit 24 v AND 0xff)]"

fun hash_vec_loop :: "u32 \<Rightarrow> u32 list \<Rightarrow> u32" where
  "hash_vec_loop h [] = h"
| "hash_vec_loop h (x # xs) = hash_vec_loop ((h * 16777619) XOR x) xs"

definition hash_vec :: "u32 list \<Rightarrow> u32" where
  "hash_vec v = hash_vec_loop 0x811c9dc5 v"

section \<open>The open-addressed map\<close>

text \<open>
  \<^verbatim>\<open>template <K, V, H> class map\<close>. The buffer \<^verbatim>\<open>b\<close> is a list of slots; a slot that is
  not \<^verbatim>\<open>used\<close> is \<open>None\<close> (its stale key and value are never read by the C++:
  every read is guarded by \<^verbatim>\<open>used\<close>). The hasher \<^verbatim>\<open>H\<close> is the parameter \<open>h\<close> of each
  operation. A pointer to a value of the map is the position of its slot.
\<close>

record ('k, 'v) map_t =
  map_b :: "('k \<times> 'v) option list"
  map_cap :: nat
  map_n :: nat

definition map_empty :: "('k, 'v) map_t" where
  "map_empty = \<lparr>map_b = [], map_cap = 0, map_n = 0\<rparr>"

text \<open>\<^verbatim>\<open>mod(k, i, cap) = (h(k) + i) % cap\<close>, computed in \<^verbatim>\<open>std::size_t\<close>.\<close>

definition mod_pos :: "('k \<Rightarrow> u32) \<Rightarrow> 'k \<Rightarrow> nat \<Rightarrow> nat \<Rightarrow> nat" where
  "mod_pos h k i c = (unat (h k) + i) mod c"

lemma mod_pos_code [code]: "mod_pos h k i c = nat ((uint (h k) + int i) mod int c)"
  by (simp add: mod_pos_def nat_mod_distrib nat_add_distrib zmod_int)

definition probes :: "('k \<Rightarrow> u32) \<Rightarrow> 'k \<Rightarrow> nat \<Rightarrow> nat list" where
  "probes h k c = map (\<lambda>i. mod_pos h k i c) [0..<c]"

lemma probes_code [code]:
  "probes h k c = (let r = uint (h k) in map (\<lambda>i. nat ((r + int i) mod int c)) [0..<c])"
  by (simp add: probes_def mod_pos_code)

fun slot_has_key :: "'k \<Rightarrow> ('k \<times> 'v) option \<Rightarrow> bool" where
  "slot_has_key k None = False"
| "slot_has_key k (Some (k', v)) = (k' = k)"

fun slot_free_or_key :: "'k \<Rightarrow> ('k \<times> 'v) option \<Rightarrow> bool" where
  "slot_free_or_key k None = True"
| "slot_free_or_key k (Some (k', v)) = (k' = k)"

text \<open>The inner loop of \<^verbatim>\<open>resize\<close>: the first slot of the new buffer that is not used.\<close>

fun put_first_free :: "('k \<times> 'v) option list \<Rightarrow> 'k \<times> 'v \<Rightarrow> ('k \<times> 'v) option list" where
  "put_first_free [] kv = []"
| "put_first_free (None # ss) kv = Some kv # ss"
| "put_first_free (Some x # ss) kv = Some x # put_first_free ss kv"

definition map_resize :: "('k, 'v) map_t \<Rightarrow> ('k, 'v) map_t" where
  "map_resize m =
     (let new_cap = max (map_cap m * 2) 7;
          nb = foldl (\<lambda>nb sl. case sl of None \<Rightarrow> nb | Some kv \<Rightarrow> put_first_free nb kv)
                 (replicate new_cap None) (take (map_cap m) (map_b m))
      in m\<lparr>map_b := nb, map_cap := new_cap\<rparr>)"

text \<open>
  \<^verbatim>\<open>set(k, v)\<close>. The test \<^verbatim>\<open>cap * 0.8 < n + 1\<close> is written over the integers as
  \<open>4 * cap < 5 * (n + 1)\<close>.
\<close>

definition map_set :: "('k \<Rightarrow> u32) \<Rightarrow> ('k, 'v) map_t \<Rightarrow> 'k \<Rightarrow> 'v \<Rightarrow> bool \<times> ('k, 'v) map_t" where
  "map_set h m k v =
     (let m1 = (if map_cap m < map_n m + 1 \<or> 4 * map_cap m < 5 * (map_n m + 1)
                then map_resize m else m)
      in case find (\<lambda>p. slot_free_or_key k (map_b m1 ! p)) (probes h k (map_cap m1)) of
           None \<Rightarrow> (False, m1)
         | Some p \<Rightarrow>
             (True, m1\<lparr>map_b := (map_b m1)[p := Some (k, v)],
                       map_n := (if map_b m1 ! p = None then map_n m1 + 1 else map_n m1)\<rparr>))"

text \<open>\<^verbatim>\<open>getp(k)\<close>: the position of the slot of \<open>k\<close> and the value it points to.\<close>

definition map_getp :: "('k \<Rightarrow> u32) \<Rightarrow> ('k, 'v) map_t \<Rightarrow> 'k \<Rightarrow> (nat \<times> 'v) option" where
  "map_getp h m k =
     (if map_n m = 0 then None
      else case find (\<lambda>p. slot_has_key k (map_b m ! p)) (probes h k (map_cap m)) of
             None \<Rightarrow> None
           | Some p \<Rightarrow> (case map_b m ! p of None \<Rightarrow> None | Some (k', v) \<Rightarrow> Some (p, v)))"

definition map_get :: "('k \<Rightarrow> u32) \<Rightarrow> ('k, 'v) map_t \<Rightarrow> 'k \<Rightarrow> error + 'v" where
  "map_get h m k = (case map_getp h m k of None \<Rightarrow> Inl NotFound | Some (p, v) \<Rightarrow> Inr v)"

definition map_has :: "('k \<Rightarrow> u32) \<Rightarrow> ('k, 'v) map_t \<Rightarrow> 'k \<Rightarrow> bool" where
  "map_has h m k = (case map_getp h m k of None \<Rightarrow> False | Some pv \<Rightarrow> True)"

text \<open>
  \<^verbatim>\<open>operator[]\<close>: the reference it returns is the map after the insertion of \<^verbatim>\<open>V{}\<close> (the
  parameter \<open>dflt\<close>) where the key was missing, the position of the slot and the value there.
  \<open>map_store\<close> writes through such a reference.
\<close>

definition map_at :: "('k \<Rightarrow> u32) \<Rightarrow> 'v \<Rightarrow> ('k, 'v) map_t \<Rightarrow> 'k \<Rightarrow> error + (('k, 'v) map_t \<times> nat \<times> 'v)" where
  "map_at h dflt m k =
     (case map_getp h m k of
        Some (p, v) \<Rightarrow> Inr (m, p, v)
      | None \<Rightarrow>
          (let m' = snd (map_set h m k dflt)
           in case map_getp h m' k of None \<Rightarrow> Inl NotFound | Some (p, v) \<Rightarrow> Inr (m', p, v)))"

definition map_store :: "('k, 'v) map_t \<Rightarrow> nat \<Rightarrow> 'v \<Rightarrow> ('k, 'v) map_t" where
  "map_store m p v = m\<lparr>map_b := (map_b m)[p := map_option (\<lambda>(k, _). (k, v)) (map_b m ! p)]\<rparr>"

text \<open>\<^verbatim>\<open>m[k] = v\<close>.\<close>

definition map_assign :: "('k \<Rightarrow> u32) \<Rightarrow> 'v \<Rightarrow> ('k, 'v) map_t \<Rightarrow> 'k \<Rightarrow> 'v \<Rightarrow> error + ('k, 'v) map_t" where
  "map_assign h dflt m k v =
     (case map_at h dflt m k of Inl e \<Rightarrow> Inl e | Inr (m', p, _) \<Rightarrow> Inr (map_store m' p v))"

text \<open>\<^verbatim>\<open>pop(k)\<close>: the loop visits every probe position and does not stop at a hit.\<close>

definition map_pop :: "('k \<Rightarrow> u32) \<Rightarrow> ('k, 'v) map_t \<Rightarrow> 'k \<Rightarrow> ('k, 'v) map_t" where
  "map_pop h m k =
     (if map_n m = 0 then m
      else foldl (\<lambda>m p. if slot_has_key k (map_b m ! p)
                         then m\<lparr>map_b := (map_b m)[p := None], map_n := map_n m - 1\<rparr> else m)
             m (probes h k (map_cap m)))"

text \<open>The iterator: the used slots in buffer order; nothing when \<^verbatim>\<open>n\<close> is 0.\<close>

definition map_items :: "('k, 'v) map_t \<Rightarrow> ('k \<times> 'v) list" where
  "map_items m = (if map_n m = 0 then [] else List.map_filter id (take (map_cap m) (map_b m)))"

section \<open>The set and the unique queue\<close>

text \<open>\<^verbatim>\<open>class set\<close> is a \<^verbatim>\<open>map<T, bool, H>\<close>.\<close>

type_synonym 'a set_t = "('a, bool) map_t"

definition set_add :: "('a \<Rightarrow> u32) \<Rightarrow> 'a set_t \<Rightarrow> 'a \<Rightarrow> error + 'a set_t" where
  "set_add h s v = map_assign h False s v True"

definition set_has :: "('a \<Rightarrow> u32) \<Rightarrow> 'a set_t \<Rightarrow> 'a \<Rightarrow> bool" where
  "set_has h s v = map_has h s v"

definition set_pop :: "('a \<Rightarrow> u32) \<Rightarrow> 'a set_t \<Rightarrow> 'a \<Rightarrow> 'a set_t" where
  "set_pop h s v = map_pop h s v"

definition set_items :: "'a set_t \<Rightarrow> 'a list" where
  "set_items s = map fst (map_items s)"

definition set_merge :: "('a \<Rightarrow> u32) \<Rightarrow> 'a set_t \<Rightarrow> 'a set_t \<Rightarrow> error + 'a set_t" where
  "set_merge h s other = fold_e (\<lambda>v s. set_add h s v) (set_items other) s"

text \<open>
  \<^verbatim>\<open>class unique_queue\<close>: the linked list from \<^verbatim>\<open>head->next\<close> to \<^verbatim>\<open>last\<close> is the list
  \<open>uq_nodes\<close>, front first; \<^verbatim>\<open>s\<close> is the set beside it. \<^verbatim>\<open>empty()\<close> and
  \<^verbatim>\<open>has()\<close> ask the set, not the list.
\<close>

record 'a unique_queue =
  uq_nodes :: "'a list"
  uq_s :: "'a set_t"

definition uq_new :: "'a unique_queue" where
  "uq_new = \<lparr>uq_nodes = [], uq_s = map_empty\<rparr>"

definition uq_empty :: "'a unique_queue \<Rightarrow> bool" where
  "uq_empty q = (map_n (uq_s q) = 0)"

definition uq_has :: "('a \<Rightarrow> u32) \<Rightarrow> 'a unique_queue \<Rightarrow> 'a \<Rightarrow> bool" where
  "uq_has h q v = set_has h (uq_s q) v"

definition uq_push :: "('a \<Rightarrow> u32) \<Rightarrow> 'a unique_queue \<Rightarrow> 'a \<Rightarrow> error + (bool \<times> 'a unique_queue)" where
  "uq_push h q v =
     (if set_has h (uq_s q) v then Inr (False, q)
      else case set_add h (uq_s q) v of
             Inl e \<Rightarrow> Inl e
           | Inr s' \<Rightarrow> Inr (True, \<lparr>uq_nodes = uq_nodes q @ [v], uq_s = s'\<rparr>))"

definition uq_pop :: "('a \<Rightarrow> u32) \<Rightarrow> 'a unique_queue \<Rightarrow> error + ('a \<times> 'a unique_queue)" where
  "uq_pop h q =
     (if uq_empty q then Inl EmptyQueue
      else case uq_nodes q of
             [] \<Rightarrow> Inl NullDeref
           | v # rest \<Rightarrow> Inr (v, \<lparr>uq_nodes = rest, uq_s = set_pop h (uq_s q) v\<rparr>))"

section \<open>Operators\<close>

text \<open>\<^verbatim>\<open>enum Op\<close>: an operator is the character that writes it.\<close>

definition EPSILON :: C where "EPSILON = 0"
definition OP_CONCAT :: C where "OP_CONCAT = 0x26"
definition OP_UNION :: C where "OP_UNION = 0x7C"
definition OP_CLOSURE :: C where "OP_CLOSURE = 0x2A"
definition OP_LEFT_PAIR :: C where "OP_LEFT_PAIR = 0x28"
definition OP_RIGHT_PAIR :: C where "OP_RIGHT_PAIR = 0x29"
definition OP_PLUS :: C where "OP_PLUS = 0x2B"
definition OP_OPTIONAL :: C where "OP_OPTIONAL = 0x3F"
definition OP_RANGE_START :: C where "OP_RANGE_START = 0x5B"
definition OP_RANGE_END :: C where "OP_RANGE_END = 0x5D"
definition OP_RANGE_TO :: C where "OP_RANGE_TO = 0x2D"
definition BACKSLASH :: C where "BACKSLASH = 0x5C"

definition IsCalculationOperator :: "C \<Rightarrow> bool" where
  "IsCalculationOperator c \<longleftrightarrow>
     c = OP_CONCAT \<or> c = OP_UNION \<or> c = OP_CLOSURE \<or> c = OP_PLUS \<or> c = OP_OPTIONAL"

definition GetOperatorPriority :: "C \<Rightarrow> int" where
  "GetOperatorPriority c =
     (if c = OP_CONCAT then 1 else if c = OP_UNION then 1 else if c = OP_CLOSURE then 2
      else if c = OP_PLUS then 2 else if c = OP_OPTIONAL then 2 else 0)"

definition IsRightActingOperator :: "C \<Rightarrow> bool" where
  "IsRightActingOperator c \<longleftrightarrow> c = OP_CONCAT \<or> c = OP_UNION \<or> c = OP_LEFT_PAIR"

definition IsAbleInsertConcat :: "C \<Rightarrow> bool" where
  "IsAbleInsertConcat c \<longleftrightarrow>
     \<not> (c = OP_CONCAT \<or> c = OP_UNION \<or> c = OP_CLOSURE \<or> c = OP_RIGHT_PAIR \<or> c = OP_PLUS
        \<or> c = OP_OPTIONAL \<or> c = OP_RANGE_END \<or> c = OP_RANGE_TO)"

section \<open>NFA states and the parser\<close>

text \<open>
  \<^verbatim>\<open>class State\<close> and \<^verbatim>\<open>class NfaState : public State\<close>. The states a parser
  allocates live in its vector \<^verbatim>\<open>states\<close>; a \<^verbatim>\<open>NfaState *\<close> is the index of the state
  in that vector. \<^verbatim>\<open>hash<State *>\<close> reads the id through the pointer.
\<close>

record State =
  st_id :: u32
  st_is_end :: bool

record NfaState = State +
  nfa_transitions :: "(C, nat set_t) map_t"

definition hash_nfa :: "NfaState list \<Rightarrow> nat \<Rightarrow> u32" where
  "hash_nfa sts p = hash_u32 (st_id (sts ! p))"

text \<open>\<^verbatim>\<open>AddTransition(c, to)\<close> on the state at \<open>p\<close>: \<^verbatim>\<open>transitions[c].add(to); if (is_end) is_end = false\<close>.\<close>

definition NfaState_AddTransition :: "NfaState list \<Rightarrow> nat \<Rightarrow> C \<Rightarrow> nat \<Rightarrow> error + NfaState list" where
  "NfaState_AddTransition sts p c t =
     (case map_at hash_char map_empty (nfa_transitions (sts ! p)) c of
        Inl e \<Rightarrow> Inl e
      | Inr (m, pos, tgt) \<Rightarrow>
          (case set_add (hash_nfa sts) tgt t of
             Inl e \<Rightarrow> Inl e
           | Inr tgt' \<Rightarrow>
               Inr (sts[p := (sts ! p)\<lparr>st_is_end := False, nfa_transitions := map_store m pos tgt'\<rparr>])))"

definition NfaState_AcceptC :: "NfaState \<Rightarrow> C \<Rightarrow> bool" where
  "NfaState_AcceptC s c = map_has hash_char (nfa_transitions s) c"

definition NfaState_Nexts :: "NfaState \<Rightarrow> C \<Rightarrow> error + nat set_t" where
  "NfaState_Nexts s c = map_get hash_char (nfa_transitions s) c"

record Nfa =
  nfa_start :: nat
  nfa_end :: nat
  nfa_size :: nat

text \<open>
  \<^verbatim>\<open>class NfaParser\<close>. A \<^verbatim>\<open>stack\<close> is a list whose head is the top; \<^verbatim>\<open>pop\<close> and
  \<^verbatim>\<open>top\<close> of an empty stack are \<open>StackUnderflow\<close>.
\<close>

record NfaParser =
  nfa_stack :: "Nfa list"
  op_stack :: "C list"
  states :: "NfaState list"

definition NfaParser_new :: NfaParser where
  "NfaParser_new = \<lparr>nfa_stack = [], op_stack = [], states = []\<rparr>"

definition NewState :: "bool \<Rightarrow> NfaParser \<Rightarrow> NfaParser \<times> nat" where
  "NewState is_end P =
     (P\<lparr>states := states P @ [\<lparr>st_id = of_nat (length (states P) + 1), st_is_end = is_end,
                                  nfa_transitions = map_empty\<rparr>]\<rparr>,
      length (states P))"

definition AddTransition :: "nat \<Rightarrow> C \<Rightarrow> nat \<Rightarrow> NfaParser \<Rightarrow> error + NfaParser" where
  "AddTransition p c t P =
     (case NfaState_AddTransition (states P) p c t of
        Inl e \<Rightarrow> Inl e | Inr sts \<Rightarrow> Inr (P\<lparr>states := sts\<rparr>))"

definition NewNfaFromSymbol :: "C \<Rightarrow> NfaParser \<Rightarrow> error + (NfaParser \<times> Nfa)" where
  "NewNfaFromSymbol c P =
     (let (P1, s) = NewState False P; (P2, e) = NewState True P1
      in bind_e (AddTransition s c e P2)
           (\<lambda>P3. Inr (P3, \<lparr>nfa_start = s, nfa_end = e, nfa_size = 2\<rparr>)))"

definition NewNfaFromSymbols :: "C set_t \<Rightarrow> NfaParser \<Rightarrow> error + (NfaParser \<times> Nfa)" where
  "NewNfaFromSymbols chs P =
     (let (P1, s) = NewState False P; (P2, e) = NewState True P1
      in bind_e (if map_n chs \<noteq> 0 then fold_e (\<lambda>c. AddTransition s c e) (set_items chs) P2
                 else AddTransition s EPSILON e P2)
           (\<lambda>P3. Inr (P3, \<lparr>nfa_start = s, nfa_end = e, nfa_size = 2\<rparr>)))"

text \<open>
  \<^verbatim>\<open>for (auto x = start; x <= end; x++) chs.add(x)\<close>: \<^verbatim>\<open>x\<close> (here \<open>ch\<close>) is a \<^verbatim>\<open>char\<close>, compared as a signed
  value and incremented with wrap-around, so the loop does not return when \<^verbatim>\<open>end\<close> is 127.
\<close>

partial_function (option) range_loop :: "C \<Rightarrow> C \<Rightarrow> C set_t \<Rightarrow> (error + C set_t) option" where
  "range_loop ch hi chs =
     (if sint ch \<le> sint hi
      then (case set_add hash_char chs ch of
              Inl err \<Rightarrow> Some (Inl err)
            | Inr chs' \<Rightarrow> range_loop (ch + 1) hi chs')
      else Some (Inr chs))"

declare range_loop.simps [code]

fun ranges_chs :: "(C \<times> C) list \<Rightarrow> C set_t \<Rightarrow> (error + C set_t) option" where
  "ranges_chs [] chs = Some (Inr chs)"
| "ranges_chs ((s, e) # rs) chs =
     (case range_loop s e chs of
        None \<Rightarrow> None
      | Some (Inl err) \<Rightarrow> Some (Inl err)
      | Some (Inr chs') \<Rightarrow> ranges_chs rs chs')"

definition NewNfaFromRanges :: "(C \<times> C) list \<Rightarrow> NfaParser \<Rightarrow> (error + (NfaParser \<times> Nfa)) option" where
  "NewNfaFromRanges ranges P =
     (case ranges_chs ranges map_empty of
        None \<Rightarrow> None
      | Some (Inl err) \<Rightarrow> Some (Inl err)
      | Some (Inr chs) \<Rightarrow> Some (NewNfaFromSymbols chs P))"

definition NewNfaFromConcat :: "Nfa \<Rightarrow> Nfa \<Rightarrow> NfaParser \<Rightarrow> error + (NfaParser \<times> Nfa)" where
  "NewNfaFromConcat a b P =
     bind_e (AddTransition (nfa_end a) EPSILON (nfa_start b) P)
       (\<lambda>P1. Inr (P1, \<lparr>nfa_start = nfa_start a, nfa_end = nfa_end b, nfa_size = nfa_size a + nfa_size b\<rparr>))"

definition NewNfaFromUnion :: "Nfa \<Rightarrow> Nfa \<Rightarrow> NfaParser \<Rightarrow> error + (NfaParser \<times> Nfa)" where
  "NewNfaFromUnion a b P =
     (let (P1, s) = NewState False P; (P2, e) = NewState True P1
      in bind_e (AddTransition s EPSILON (nfa_start a) P2) (\<lambda>P3.
         bind_e (AddTransition s EPSILON (nfa_start b) P3) (\<lambda>P4.
         bind_e (AddTransition (nfa_end a) EPSILON e P4) (\<lambda>P5.
         bind_e (AddTransition (nfa_end b) EPSILON e P5) (\<lambda>P6.
         Inr (P6, \<lparr>nfa_start = s, nfa_end = e, nfa_size = nfa_size a + nfa_size b + 2\<rparr>))))))"

definition NewNfaFromClosure :: "Nfa \<Rightarrow> NfaParser \<Rightarrow> error + (NfaParser \<times> Nfa)" where
  "NewNfaFromClosure a P =
     (let (P1, s) = NewState False P; (P2, e) = NewState True P1
      in bind_e (AddTransition (nfa_end a) EPSILON (nfa_start a) P2) (\<lambda>P3.
         bind_e (AddTransition s EPSILON (nfa_start a) P3) (\<lambda>P4.
         bind_e (AddTransition (nfa_end a) EPSILON e P4) (\<lambda>P5.
         bind_e (AddTransition s EPSILON e P5) (\<lambda>P6.
         Inr (P6, \<lparr>nfa_start = s, nfa_end = e, nfa_size = nfa_size a + 2\<rparr>))))))"

definition NewNfaFromPlus :: "Nfa \<Rightarrow> NfaParser \<Rightarrow> error + (NfaParser \<times> Nfa)" where
  "NewNfaFromPlus a P =
     bind_e (NewNfaFromClosure a P) (\<lambda>(P1, p). NewNfaFromConcat a p P1)"

definition NewNfaFromOptional :: "Nfa \<Rightarrow> NfaParser \<Rightarrow> error + (NfaParser \<times> Nfa)" where
  "NewNfaFromOptional a P =
     (let (P1, s) = NewState False P; (P2, e) = NewState True P1
      in bind_e (AddTransition s EPSILON (nfa_start a) P2) (\<lambda>P3.
         bind_e (AddTransition (nfa_end a) EPSILON e P3) (\<lambda>P4.
         bind_e (AddTransition s EPSILON e P4) (\<lambda>P5.
         Inr (P5, \<lparr>nfa_start = s, nfa_end = e, nfa_size = nfa_size a + 2\<rparr>)))))"

definition nfa_pop :: "NfaParser \<Rightarrow> error + (NfaParser \<times> Nfa)" where
  "nfa_pop P = (case nfa_stack P of [] \<Rightarrow> Inl StackUnderflow
                | a # rest \<Rightarrow> Inr (P\<lparr>nfa_stack := rest\<rparr>, a))"

definition nfa_push :: "NfaParser \<times> Nfa \<Rightarrow> error + NfaParser" where
  "nfa_push = (\<lambda>(P, a). Inr (P\<lparr>nfa_stack := a # nfa_stack P\<rparr>))"

text \<open>\<^verbatim>\<open>Calc()\<close>: pop an operator and apply it to the top of the fragment stack.\<close>

definition Calc :: "NfaParser \<Rightarrow> error + NfaParser" where
  "Calc P =
     (case op_stack P of
        [] \<Rightarrow> Inr P
      | op # ops \<Rightarrow>
          (let P0 = P\<lparr>op_stack := ops\<rparr> in
           if op = OP_CLOSURE then
             bind_e (nfa_pop P0) (\<lambda>(P1, a). bind_e (NewNfaFromClosure a P1) nfa_push)
           else if op = OP_CONCAT then
             bind_e (nfa_pop P0) (\<lambda>(P1, b). bind_e (nfa_pop P1) (\<lambda>(P2, a).
               bind_e (NewNfaFromConcat a b P2) nfa_push))
           else if op = OP_UNION then
             bind_e (nfa_pop P0) (\<lambda>(P1, b). bind_e (nfa_pop P1) (\<lambda>(P2, a).
               bind_e (NewNfaFromUnion a b P2) nfa_push))
           else if op = OP_PLUS then
             bind_e (nfa_pop P0) (\<lambda>(P1, a). bind_e (NewNfaFromPlus a P1) nfa_push)
           else if op = OP_OPTIONAL then
             bind_e (nfa_pop P0) (\<lambda>(P1, a). bind_e (NewNfaFromOptional a P1) nfa_push)
           else Inr P0))"

text \<open>\<^verbatim>\<open>Normalize\<close>: the loop over the pattern, with \<^verbatim>\<open>s1\<close> and \<^verbatim>\<open>is_in_range\<close> as its state.\<close>

fun Normalize_loop :: "C list \<Rightarrow> C list \<Rightarrow> bool \<Rightarrow> C list" where
  "Normalize_loop [] s1 is_in_range = s1"
| "Normalize_loop (c # s) s1 is_in_range =
     (let s1' = (if IsAbleInsertConcat c \<and> s1 \<noteq> [] \<and> \<not> IsRightActingOperator (last s1)
                    \<and> \<not> is_in_range
                 then s1 @ [OP_CONCAT] else s1);
          r = (if c = OP_RANGE_START then True else if c = OP_RANGE_END then False else is_in_range)
      in Normalize_loop s (s1' @ [c]) r)"

definition Normalize :: "C list \<Rightarrow> C list" where
  "Normalize s = Normalize_loop s [] False"

text \<open>Every construction leaves the operator stack alone, so \<^verbatim>\<open>Calc\<close> pops exactly one operator.\<close>

lemma AddTransition_op_stack: "AddTransition p c t P = Inr P' \<Longrightarrow> op_stack P' = op_stack P"
  by (auto simp: AddTransition_def split: sum.splits)

lemma NewState_op_stack: "NewState e P = (P', p) \<Longrightarrow> op_stack P' = op_stack P"
  by (auto simp: NewState_def)

lemma NewNfaFromConcat_op_stack: "NewNfaFromConcat a b P = Inr (P', r) \<Longrightarrow> op_stack P' = op_stack P"
  by (auto simp: NewNfaFromConcat_def bind_e_def split: sum.splits dest: AddTransition_op_stack)

lemma NewNfaFromUnion_op_stack: "NewNfaFromUnion a b P = Inr (P', r) \<Longrightarrow> op_stack P' = op_stack P"
  by (auto simp: NewNfaFromUnion_def bind_e_def NewState_def split: sum.splits
      dest!: AddTransition_op_stack)

lemma NewNfaFromClosure_op_stack: "NewNfaFromClosure a P = Inr (P', r) \<Longrightarrow> op_stack P' = op_stack P"
  by (auto simp: NewNfaFromClosure_def bind_e_def NewState_def split: sum.splits
      dest!: AddTransition_op_stack)

lemma NewNfaFromOptional_op_stack: "NewNfaFromOptional a P = Inr (P', r) \<Longrightarrow> op_stack P' = op_stack P"
  by (auto simp: NewNfaFromOptional_def bind_e_def NewState_def split: sum.splits
      dest!: AddTransition_op_stack)

lemma NewNfaFromPlus_op_stack: "NewNfaFromPlus a P = Inr (P', r) \<Longrightarrow> op_stack P' = op_stack P"
  by (auto simp: NewNfaFromPlus_def bind_e_def split: sum.splits
      dest!: NewNfaFromClosure_op_stack NewNfaFromConcat_op_stack)

lemma nfa_pop_op_stack: "nfa_pop P = Inr (P', a) \<Longrightarrow> op_stack P' = op_stack P"
  by (auto simp: nfa_pop_def split: list.splits)

lemma nfa_push_op_stack: "nfa_push (P, a) = Inr P' \<Longrightarrow> op_stack P' = op_stack P"
  by (auto simp: nfa_push_def)

lemma Calc_op_stack: "Calc P = Inr P' \<Longrightarrow> op_stack P' = tl (op_stack P)"
  by (auto simp: Calc_def Let_def bind_e_def split: list.splits sum.splits if_splits
      dest!: nfa_pop_op_stack nfa_push_op_stack NewNfaFromClosure_op_stack
        NewNfaFromConcat_op_stack NewNfaFromUnion_op_stack NewNfaFromPlus_op_stack
        NewNfaFromOptional_op_stack)

text \<open>
  The loop of an operator character:
  \<^verbatim>\<open>while (!op_stack.empty() && IsCalculationOperator(op_stack.top()) && priority(top) >= priority(op)) Calc()\<close>.
\<close>

function calc_while :: "C \<Rightarrow> NfaParser \<Rightarrow> error + NfaParser" where
  "calc_while op P =
     (case op_stack P of
        [] \<Rightarrow> Inr P
      | t # ts \<Rightarrow>
          (if IsCalculationOperator t \<and> GetOperatorPriority t \<ge> GetOperatorPriority op
           then (case Calc P of Inl e \<Rightarrow> Inl e | Inr P' \<Rightarrow> calc_while op P')
           else Inr P))"
  by pat_completeness auto
termination
  by (relation "measure (\<lambda>(op, P). length (op_stack P))") (auto dest: Calc_op_stack)

declare calc_while.simps [simp del]

text \<open>The loop of \<^verbatim>\<open>)\<close>: \<^verbatim>\<open>while (!op_stack.empty() && op_stack.top() != OP_LEFT_PAIR) Calc()\<close>.\<close>

function calc_until_left :: "NfaParser \<Rightarrow> error + NfaParser" where
  "calc_until_left P =
     (case op_stack P of
        [] \<Rightarrow> Inr P
      | t # ts \<Rightarrow>
          (if t \<noteq> OP_LEFT_PAIR
           then (case Calc P of Inl e \<Rightarrow> Inl e | Inr P' \<Rightarrow> calc_until_left P')
           else Inr P))"
  by pat_completeness auto
termination
  by (relation "measure (\<lambda>P. length (op_stack P))") (auto dest: Calc_op_stack)

declare calc_until_left.simps [simp del]

text \<open>The last loop of \<^verbatim>\<open>Parse\<close>: \<^verbatim>\<open>while (!op_stack.empty()) Calc()\<close>.\<close>

function calc_all :: "NfaParser \<Rightarrow> error + NfaParser" where
  "calc_all P =
     (case op_stack P of
        [] \<Rightarrow> Inr P
      | t # ts \<Rightarrow> (case Calc P of Inl e \<Rightarrow> Inl e | Inr P' \<Rightarrow> calc_all P'))"
  by pat_completeness auto
termination
  by (relation "measure (\<lambda>P. length (op_stack P))") (auto dest: Calc_op_stack)

declare calc_all.simps [simp del]

definition op_pop :: "NfaParser \<Rightarrow> error + NfaParser" where
  "op_pop P = (case op_stack P of [] \<Rightarrow> Inl StackUnderflow | t # ts \<Rightarrow> Inr (P\<lparr>op_stack := ts\<rparr>))"

text \<open>
  The loop of \<^verbatim>\<open>[\<close>, over the rest of \<^verbatim>\<open>s1\<close>: it stops at \<^verbatim>\<open>]\<close> or at the end of the
  string and returns the ranges and what is left of the string.
\<close>

fun class_loop :: "C list \<Rightarrow> C \<Rightarrow> (C \<times> C) list \<Rightarrow> (C \<times> C) list \<times> C list" where
  "class_loop [] range_start ranges = (ranges, [])"
| "class_loop (x # xs) range_start ranges =
     (if x = OP_RANGE_END then (ranges, x # xs)
      else if x \<noteq> OP_RANGE_TO
      then (if range_start = EPSILON then class_loop xs x ranges
            else class_loop xs EPSILON (ranges @ [(range_start, x)]))
      else class_loop xs range_start ranges)"

lemma class_loop_length: "length (snd (class_loop xs r rs)) \<le> length xs"
  by (induction xs r rs rule: class_loop.induct) auto

text \<open>
  The main loop of \<^verbatim>\<open>Parse\<close> over the rest of \<^verbatim>\<open>s1\<close>. After a backslash at the very end
  \<^verbatim>\<open>s1[i++]\<close> reads the terminating zero of the \<^verbatim>\<open>std::string\<close>.
\<close>

function parse_loop :: "C list \<Rightarrow> NfaParser \<Rightarrow> (error + NfaParser) option" where
  "parse_loop [] P = Some (Inr P)"
| "parse_loop (x # xs) P =
     (if x = OP_CONCAT \<or> x = OP_UNION \<or> x = OP_PLUS \<or> x = OP_OPTIONAL \<or> x = OP_CLOSURE then
        (case calc_while x P of
           Inl e \<Rightarrow> Some (Inl e)
         | Inr P1 \<Rightarrow> parse_loop xs (P1\<lparr>op_stack := x # op_stack P1\<rparr>))
      else if x = OP_LEFT_PAIR then parse_loop xs (P\<lparr>op_stack := x # op_stack P\<rparr>)
      else if x = OP_RIGHT_PAIR then
        (case bind_e (calc_until_left P) op_pop of
           Inl e \<Rightarrow> Some (Inl e)
         | Inr P1 \<Rightarrow> parse_loop xs P1)
      else if x = OP_RANGE_START then
        (case NewNfaFromRanges (fst (class_loop xs EPSILON [])) P of
           None \<Rightarrow> None
         | Some r \<Rightarrow>
             (case bind_e r nfa_push of
                Inl e \<Rightarrow> Some (Inl e)
              | Inr P1 \<Rightarrow> parse_loop (snd (class_loop xs EPSILON [])) P1))
      else if x = OP_RANGE_END then parse_loop xs P
      else if x = BACKSLASH then
        (case bind_e (NewNfaFromSymbol (case xs of [] \<Rightarrow> 0 | y # ys \<Rightarrow> y) P) nfa_push of
           Inl e \<Rightarrow> Some (Inl e)
         | Inr P1 \<Rightarrow> parse_loop (tl xs) P1)
      else
        (case bind_e (NewNfaFromSymbol x P) nfa_push of
           Inl e \<Rightarrow> Some (Inl e)
         | Inr P1 \<Rightarrow> parse_loop xs P1))"
  by pat_completeness auto
termination
proof (relation "measure (\<lambda>(s, P). length s)", goal_cases)
  case (5 x xs P r P1)
  have "length (snd (class_loop xs EPSILON [])) \<le> length xs" by (rule class_loop_length)
  then show ?case by simp
qed auto

text \<open>\<^verbatim>\<open>Parse(s)\<close>: the parser as it is left, and the fragment on top of its stack.\<close>

definition Parse :: "C list \<Rightarrow> (error + (NfaParser \<times> Nfa)) option" where
  "Parse s =
     (let s1 = Normalize s in
      case bind_e (NewNfaFromSymbol EPSILON NfaParser_new) nfa_push of
        Inl e \<Rightarrow> Some (Inl e)
      | Inr P0 \<Rightarrow>
          (case parse_loop s1 P0 of
             None \<Rightarrow> None
           | Some (Inl e) \<Rightarrow> Some (Inl e)
           | Some (Inr P1) \<Rightarrow>
               (case calc_all P1 of
                  Inl e \<Rightarrow> Some (Inl e)
                | Inr P2 \<Rightarrow>
                    (case nfa_stack P2 of
                       [] \<Rightarrow> Some (Inl StackUnderflow)
                     | a # rest \<Rightarrow> Some (Inr (P2, a))))))"

section \<open>DFA states and the builder\<close>

text \<open>
  \<^verbatim>\<open>class DfaState : public State\<close>. The builder allocates the DFA states; they live in the
  list \<open>heap\<close>, in allocation order, and a \<^verbatim>\<open>DfaState *\<close> is an index of that list.
\<close>

record DfaState = State +
  dfa_no :: u16
  dfa_transitions :: "(C, nat) map_t"

definition hash_dfa :: "DfaState list \<Rightarrow> nat \<Rightarrow> u32" where
  "hash_dfa hp p = hash_u32 (st_id (hp ! p))"

record Dfa =
  dfa_start :: nat
  dfa_states :: "nat set_t"
  dfa_chs :: "C set_t"

record DfaBuilder =
  b_d :: "(u32, (C, nat set_t) map_t) map_t"
  b_states :: "(u32, nat) map_t"
  epsilon_closure_cache :: "(u32, u32) map_t"
  heap :: "DfaState list"

definition DfaBuilder_new :: DfaBuilder where
  "DfaBuilder_new = \<lparr>b_d = map_empty, b_states = map_empty, epsilon_closure_cache = map_empty, heap = []\<rparr>"

text \<open>\<^verbatim>\<open>HashNfaStateIds\<close>: the ids of the set, sorted ascending, hashed as a vector.\<close>

definition HashNfaStateIds :: "NfaState list \<Rightarrow> nat set_t \<Rightarrow> u32" where
  "HashNfaStateIds sts N = hash_vec (sort (map (\<lambda>p. st_id (sts ! p)) (set_items N)))"

text \<open>\<^verbatim>\<open>d[id][c].merge(sts)\<close>.\<close>

definition d_merge :: "NfaState list \<Rightarrow> u32 \<Rightarrow> C \<Rightarrow> nat set_t
    \<Rightarrow> (u32, (C, nat set_t) map_t) map_t \<Rightarrow> error + (u32, (C, nat set_t) map_t) map_t" where
  "d_merge sts ident c tgts d =
     bind_e (map_at hash_u32 map_empty d ident) (\<lambda>(d1, pos, tbl).
     bind_e (map_at hash_char map_empty tbl c) (\<lambda>(tbl1, pos2, set0).
     bind_e (set_merge (hash_nfa sts) set0 tgts) (\<lambda>set1.
     Inr (map_store d1 pos (map_store tbl1 pos2 set1)))))"

definition NewDfaState :: "NfaState list \<Rightarrow> nat set_t \<Rightarrow> u32 \<Rightarrow> DfaBuilder \<Rightarrow> error + (DfaBuilder \<times> nat)" where
  "NewDfaState sts N id0 B =
     (let ident = (if id0 = 0 then HashNfaStateIds sts N else id0);
          is_end = list_ex (\<lambda>s. st_is_end (sts ! s)) (set_items N)
      in bind_e (fold_e (\<lambda>s. fold_e (\<lambda>(c, tgts) d. if c \<noteq> EPSILON then d_merge sts ident c tgts d else Inr d)
                              (map_items (nfa_transitions (sts ! s))))
                   (set_items N) (b_d B)) (\<lambda>d'.
         bind_e (map_assign hash_u32 0 (b_states B) ident (length (heap B))) (\<lambda>states'.
         Inr (B\<lparr>b_d := d', b_states := states',
                heap := heap B @ [\<lparr>st_id = ident, st_is_end = is_end,
                                    dfa_no = of_nat (map_n (b_states B) + 1),
                                    dfa_transitions = map_empty\<rparr>]\<rparr>,
              length (heap B)))))"

text \<open>
  \<^verbatim>\<open>EpsilonClosure(N)\<close>: the stack holds the states still to visit, its head is the top.
\<close>

definition eps_visit :: "NfaState list \<Rightarrow> nat \<Rightarrow> nat list \<times> nat set_t \<Rightarrow> error + (nat list \<times> nat set_t)" where
  "eps_visit sts t = (\<lambda>(stk, N).
     if \<not> set_has (hash_nfa sts) N t
     then bind_e (set_add (hash_nfa sts) N t) (\<lambda>N'. Inr (t # stk, N'))
     else Inr (stk, N))"

partial_function (option) eps_loop :: "NfaState list \<Rightarrow> nat list \<Rightarrow> nat set_t \<Rightarrow> (error + nat set_t) option" where
  "eps_loop sts stk N =
     (case stk of
        [] \<Rightarrow> Some (Inr N)
      | s # rest \<Rightarrow>
          (if \<not> NfaState_AcceptC (sts ! s) EPSILON then eps_loop sts rest N
           else (case bind_e (NfaState_Nexts (sts ! s) EPSILON)
                        (\<lambda>nx. fold_e (eps_visit sts) (set_items nx) (rest, N)) of
                   Inl e \<Rightarrow> Some (Inl e)
                 | Inr (stk', N') \<Rightarrow> eps_loop sts stk' N')))"

declare eps_loop.simps [code]

definition EpsilonClosure :: "NfaState list \<Rightarrow> nat set_t \<Rightarrow> (error + nat set_t) option" where
  "EpsilonClosure sts N = eps_loop sts (rev (set_items N)) N"

text \<open>\<^verbatim>\<open>Move(S, c)\<close>.\<close>

definition Move :: "NfaState list \<Rightarrow> nat \<Rightarrow> C \<Rightarrow> DfaBuilder \<Rightarrow> (error + (DfaBuilder \<times> nat)) option" where
  "Move sts S c B =
     (case bind_e (map_get hash_u32 (b_d B) (st_id (heap B ! S))) (\<lambda>tbl. map_get hash_char tbl c) of
        Inl e \<Rightarrow> Some (Inl e)
      | Inr N \<Rightarrow>
          (let kid = HashNfaStateIds sts N in
           case map_getp hash_u32 (epsilon_closure_cache B) kid of
             Some (pos, ident) \<Rightarrow>
               Some (bind_e (map_get hash_u32 (b_states B) ident) (\<lambda>T. Inr (B, T)))
           | None \<Rightarrow>
               (case EpsilonClosure sts N of
                  None \<Rightarrow> None
                | Some (Inl e) \<Rightarrow> Some (Inl e)
                | Some (Inr N1) \<Rightarrow>
                    (let ident = HashNfaStateIds sts N1 in
                     Some (bind_e (if \<not> map_has hash_u32 (b_states B) ident
                                   then bind_e (NewDfaState sts N1 ident B) (\<lambda>(B1, T). Inr B1)
                                   else Inr B) (\<lambda>B1.
                           let B2 = B1\<lparr>epsilon_closure_cache :=
                                         snd (map_set hash_u32 (epsilon_closure_cache B1) kid ident)\<rparr>
                           in bind_e (map_get hash_u32 (b_states B2) ident) (\<lambda>T. Inr (B2, T))))))))"

text \<open>\<^verbatim>\<open>DfaState::AddTransition(c, to)\<close> on the state at \<open>S\<close>: \<^verbatim>\<open>transitions[c] = to\<close>.\<close>

definition DfaState_AddTransition :: "nat \<Rightarrow> C \<Rightarrow> nat \<Rightarrow> DfaState list \<Rightarrow> error + DfaState list" where
  "DfaState_AddTransition S c T hp =
     bind_e (map_assign hash_char 0 (dfa_transitions (hp ! S)) c T) (\<lambda>tr.
     Inr (hp[S := (hp ! S)\<lparr>dfa_transitions := tr\<rparr>]))"

text \<open>\<^verbatim>\<open>Dfa::AddState(st)\<close>.\<close>

definition Dfa_AddState :: "DfaState list \<Rightarrow> nat \<Rightarrow> Dfa \<Rightarrow> error + Dfa" where
  "Dfa_AddState hp S D =
     bind_e (set_add (hash_dfa hp) (dfa_states D) S) (\<lambda>sts'.
     bind_e (fold_e (\<lambda>c chs. set_add hash_char chs c) (map fst (map_items (dfa_transitions (hp ! S)))) (dfa_chs D))
       (\<lambda>chs'. Inr (D\<lparr>dfa_states := sts', dfa_chs := chs'\<rparr>)))"

text \<open>The body of \<^verbatim>\<open>for (auto c : chs)\<close> in \<^verbatim>\<open>Build\<close>, and the loop.\<close>

definition build_step :: "NfaState list \<Rightarrow> Dfa \<Rightarrow> nat \<Rightarrow> C \<Rightarrow> DfaBuilder \<times> nat unique_queue
    \<Rightarrow> (error + (DfaBuilder \<times> nat unique_queue)) option" where
  "build_step sts D S c = (\<lambda>(B, q).
     case Move sts S c B of
       None \<Rightarrow> None
     | Some (Inl e) \<Rightarrow> Some (Inl e)
     | Some (Inr (B1, T)) \<Rightarrow>
         Some (bind_e (DfaState_AddTransition S c T (heap B1)) (\<lambda>hp.
               let B2 = B1\<lparr>heap := hp\<rparr> in
               if \<not> set_has (hash_dfa hp) (dfa_states D) T \<and> \<not> uq_has (hash_dfa hp) q T
               then bind_e (uq_push (hash_dfa hp) q T) (\<lambda>(r, q'). Inr (B2, q'))
               else Inr (B2, q))))"

fun build_chars :: "NfaState list \<Rightarrow> Dfa \<Rightarrow> nat \<Rightarrow> C list \<Rightarrow> DfaBuilder \<times> nat unique_queue
    \<Rightarrow> (error + (DfaBuilder \<times> nat unique_queue)) option" where
  "build_chars sts D S [] Bq = Some (Inr Bq)"
| "build_chars sts D S (c # cs) Bq =
     (case build_step sts D S c Bq of
        None \<Rightarrow> None
      | Some (Inl e) \<Rightarrow> Some (Inl e)
      | Some (Inr Bq') \<Rightarrow> build_chars sts D S cs Bq')"

text \<open>One turn of \<^verbatim>\<open>while (!q.empty())\<close>, after the pop of \<open>S\<close>.\<close>

definition build_state :: "NfaState list \<Rightarrow> nat \<Rightarrow> DfaBuilder \<times> Dfa \<times> nat unique_queue
    \<Rightarrow> (error + (DfaBuilder \<times> Dfa \<times> nat unique_queue)) option" where
  "build_state sts S = (\<lambda>(B, D, q).
     case (case map_getp hash_u32 (b_d B) (st_id (heap B ! S)) of
             None \<Rightarrow> Some (Inr (B, q))
           | Some (pos, tbl) \<Rightarrow>
               (case fold_e (\<lambda>c chs. set_add hash_char chs c) (map fst (map_items tbl)) map_empty of
                  Inl e \<Rightarrow> Some (Inl e)
                | Inr chs \<Rightarrow> build_chars sts D S (set_items chs) (B, q))) of
       None \<Rightarrow> None
     | Some (Inl e) \<Rightarrow> Some (Inl e)
     | Some (Inr (B', q')) \<Rightarrow>
         Some (bind_e (Dfa_AddState (heap B') S D) (\<lambda>D'. Inr (B', D', q'))))"

partial_function (option) build_loop :: "NfaState list \<Rightarrow> DfaBuilder \<times> Dfa \<times> nat unique_queue
    \<Rightarrow> (error + (DfaBuilder \<times> Dfa)) option" where
  "build_loop sts BDq =
     (if uq_empty (snd (snd BDq)) then Some (Inr (fst BDq, fst (snd BDq)))
      else (case uq_pop (hash_dfa (heap (fst BDq))) (snd (snd BDq)) of
              Inl e \<Rightarrow> Some (Inl e)
            | Inr (S, q1) \<Rightarrow>
                (case build_state sts S (fst BDq, fst (snd BDq), q1) of
                   None \<Rightarrow> None
                 | Some (Inl e) \<Rightarrow> Some (Inl e)
                 | Some (Inr BDq') \<Rightarrow> build_loop sts BDq')))"

declare build_loop.simps [code]

text \<open>\<^verbatim>\<open>DfaBuilder::Build()\<close>: the builder as it is left (it holds the DFA states) and the DFA.\<close>

definition Build :: "NfaState list \<Rightarrow> Nfa \<Rightarrow> (error + (DfaBuilder \<times> Dfa)) option" where
  "Build sts nfa =
     (case set_add (hash_nfa sts) map_empty (nfa_start nfa) of
        Inl e \<Rightarrow> Some (Inl e)
      | Inr N0 \<Rightarrow>
          (case EpsilonClosure sts N0 of
             None \<Rightarrow> None
           | Some (Inl e) \<Rightarrow> Some (Inl e)
           | Some (Inr N1) \<Rightarrow>
               (case NewDfaState sts N1 0 DfaBuilder_new of
                  Inl e \<Rightarrow> Some (Inl e)
                | Inr (B0, S0) \<Rightarrow>
                    (case uq_push (hash_dfa (heap B0)) uq_new S0 of
                       Inl e \<Rightarrow> Some (Inl e)
                     | Inr (r, q) \<Rightarrow>
                         build_loop sts (B0, \<lparr>dfa_start = S0, dfa_states = map_empty, dfa_chs = map_empty\<rparr>, q)))))"

text \<open>\<^verbatim>\<open>Dfa::Match(s)\<close>, on the un-frozen DFA.\<close>

fun Dfa_Match_loop :: "DfaState list \<Rightarrow> nat \<Rightarrow> C list \<Rightarrow> error + bool" where
  "Dfa_Match_loop hp st [] = Inr (st_is_end (hp ! st))"
| "Dfa_Match_loop hp st (c # s) =
     (if \<not> map_has hash_char (dfa_transitions (hp ! st)) c then Inr False
      else bind_e (map_get hash_char (dfa_transitions (hp ! st)) c) (\<lambda>st'. Dfa_Match_loop hp st' s))"

definition Dfa_Match :: "DfaState list \<Rightarrow> Dfa \<Rightarrow> C list \<Rightarrow> error + bool" where
  "Dfa_Match hp D s = Dfa_Match_loop hp (dfa_start D) s"

text \<open>
  \<^verbatim>\<open>build<pattern>()\<close>: the \<^verbatim>\<open>std::string_view\<close> of the pattern ends at its first zero byte.
\<close>

definition c_str :: "C list \<Rightarrow> C list" where
  "c_str s = takeWhile (\<lambda>c. c \<noteq> 0) s"

definition build :: "C list \<Rightarrow> (error + (DfaBuilder \<times> Dfa)) option" where
  "build pattern =
     (case Parse (c_str pattern) of
        None \<Rightarrow> None
      | Some (Inl e) \<Rightarrow> Some (Inl e)
      | Some (Inr (P, nfa)) \<Rightarrow> Build (states P) nfa)"

section \<open>The frozen tables and the matcher\<close>

text \<open>
  \<^verbatim>\<open>class FixedDfa\<close>. The template parameters \<^verbatim>\<open>pre_index\<close> and \<^verbatim>\<open>AlphabetSize\<close> and the
  constants \<^verbatim>\<open>NStates\<close> and \<^verbatim>\<open>NChars\<close> are fields beside the four arrays. An index out of
  the range of an array is \<open>OutOfBounds\<close>.
\<close>

record FixedDfa =
  fd_pre_index :: bool
  fd_AlphabetSize :: nat
  fd_NStates :: nat
  fd_NChars :: nat
  fd_chs :: "C list"
  fd_ch_index_table :: "8 word list"
  fd_transitions :: "u16 list list"
  fd_st_is_end_table :: "bool list"

definition arr_get :: "'a list \<Rightarrow> nat \<Rightarrow> error + 'a" where
  "arr_get xs i = (if i < length xs then Inr (xs ! i) else Inl OutOfBounds)"

definition arr_set :: "'a list \<Rightarrow> nat \<Rightarrow> 'a \<Rightarrow> error + 'a list" where
  "arr_set xs i v = (if i < length xs then Inr (xs[i := v]) else Inl OutOfBounds)"

text \<open>
  \<^verbatim>\<open>ch % AlphabetSize\<close>: the \<^verbatim>\<open>char\<close> is converted to \<^verbatim>\<open>std::size_t\<close> (sign-extended to
  64 bits) before the remainder is taken.
\<close>

definition char_index :: "nat \<Rightarrow> C \<Rightarrow> nat" where
  "char_index A ch = unat (scast ch :: 64 word) mod A"

text \<open>
  \<^verbatim>\<open>x - 1\<close> as an index, for an unsigned 8- or 16-bit \<open>x\<close>: at 0 the index is
  \<^verbatim>\<open>(size_t)(-1)\<close>, out of the range of every array.
\<close>

definition index_minus1 :: "'a::len word \<Rightarrow> error + nat" where
  "index_minus1 x = (if x = 0 then Inl OutOfBounds else Inr (unat x - 1))"

text \<open>\<^verbatim>\<open>for (i = 0; i < chs.size(); i++) tmp[chs[i] % AlphabetSize] = i + 1\<close>, from \<open>i\<close> on.\<close>

fun fill_index :: "nat \<Rightarrow> nat \<Rightarrow> C list \<Rightarrow> 8 word list \<Rightarrow> error + 8 word list" where
  "fill_index A i [] tmp = Inr tmp"
| "fill_index A i (ch # rest) tmp =
     bind_e (arr_set tmp (char_index A ch) (of_nat (i + 1))) (fill_index A (i + 1) rest)"

text \<open>\<^verbatim>\<open>for (auto i = 0; auto ch : dfa->chs) chs[i++] = ch\<close>, from \<open>i\<close> on.\<close>

fun fill_chs :: "nat \<Rightarrow> C list \<Rightarrow> C list \<Rightarrow> error + C list" where
  "fill_chs i [] chs = Inr chs"
| "fill_chs i (ch # rest) chs = bind_e (arr_set chs i ch) (fill_chs (i + 1) rest)"

text \<open>The body of the loop over the transitions of one state: \<^verbatim>\<open>transitions[st->No() - 1][j - 1] = to->No()\<close>.\<close>

definition fill_cell :: "nat \<Rightarrow> DfaState list \<Rightarrow> 8 word list \<Rightarrow> u16 \<Rightarrow> C \<times> nat
    \<Rightarrow> u16 list list \<Rightarrow> error + u16 list list" where
  "fill_cell A hp tmp no = (\<lambda>(ch, t) tr.
     bind_e (arr_get tmp (char_index A ch)) (\<lambda>j.
     bind_e (index_minus1 no) (\<lambda>r.
     bind_e (arr_get tr r) (\<lambda>row.
     bind_e (index_minus1 j) (\<lambda>col.
     bind_e (arr_set row col (dfa_no (hp ! t))) (\<lambda>row'.
     arr_set tr r row'))))))"

definition fill_state :: "nat \<Rightarrow> DfaState list \<Rightarrow> 8 word list \<Rightarrow> nat
    \<Rightarrow> u16 list list \<times> bool list \<Rightarrow> error + (u16 list list \<times> bool list)" where
  "fill_state A hp tmp st = (\<lambda>(tr, ends).
     bind_e (fold_e (fill_cell A hp tmp (dfa_no (hp ! st))) (map_items (dfa_transitions (hp ! st))) tr) (\<lambda>tr'.
     if st_is_end (hp ! st)
     then bind_e (index_minus1 (dfa_no (hp ! st))) (\<lambda>r.
          bind_e (arr_set ends r True) (\<lambda>ends'. Inr (tr', ends')))
     else Inr (tr', ends)))"

text \<open>
  The constructor \<^verbatim>\<open>FixedDfa()\<close>, from the DFA that \<^verbatim>\<open>build<pattern>()\<close> returns;
  \<^verbatim>\<open>NStates\<close> and \<^verbatim>\<open>NChars\<close> are the counts \<^verbatim>\<open>dfa_count<pattern>()\<close> takes from the same DFA.
\<close>

definition FixedDfa_new :: "bool \<Rightarrow> nat \<Rightarrow> DfaState list \<Rightarrow> Dfa \<Rightarrow> error + FixedDfa" where
  "FixedDfa_new pre_index A hp D =
     (let NStates = map_n (dfa_states D); NChars = map_n (dfa_chs D)
      in bind_e (fill_chs 0 (set_items (dfa_chs D)) (replicate NChars 0)) (\<lambda>chs.
         bind_e (fill_index A 0 chs (replicate A 0)) (\<lambda>tmp.
         bind_e (fold_e (fill_state A hp tmp) (set_items (dfa_states D))
                   (replicate NStates (replicate NChars 0), replicate NStates False)) (\<lambda>(tr, ends).
         Inr \<lparr>fd_pre_index = pre_index, fd_AlphabetSize = A, fd_NStates = NStates, fd_NChars = NChars,
              fd_chs = chs,
              fd_ch_index_table = (if pre_index then tmp else replicate 1 0),
              fd_transitions = tr, fd_st_is_end_table = ends\<rparr>))))"

text \<open>
  \<^verbatim>\<open>FixedDfa::Match(s)\<close>. The loop returns the flag \<^verbatim>\<open>fail\<close> and the state \<^verbatim>\<open>st\<close> it stops with.
\<close>

definition match_table :: "FixedDfa \<Rightarrow> error + 8 word list" where
  "match_table fd =
     (if fd_pre_index fd then Inr (fd_ch_index_table fd)
      else fill_index (fd_AlphabetSize fd) 0 (fd_chs fd) (replicate (fd_AlphabetSize fd) 0))"

fun match_loop :: "FixedDfa \<Rightarrow> 8 word list \<Rightarrow> u16 \<Rightarrow> C list \<Rightarrow> error + (bool \<times> u16)" where
  "match_loop fd t st [] = Inr (False, st)"
| "match_loop fd t st (ch # s) =
     bind_e (arr_get t (char_index (fd_AlphabetSize fd) ch)) (\<lambda>j.
     if j = 0 then Inr (True, st)
     else bind_e (index_minus1 st) (\<lambda>r.
          bind_e (arr_get (fd_transitions fd) r) (\<lambda>row.
          bind_e (index_minus1 j) (\<lambda>col.
          bind_e (arr_get row col) (\<lambda>t'.
          if t' = 0 then Inr (True, st) else match_loop fd t t' s)))))"

definition FixedDfa_Match :: "FixedDfa \<Rightarrow> C list \<Rightarrow> error + bool" where
  "FixedDfa_Match fd s =
     bind_e (match_table fd) (\<lambda>t.
     bind_e (match_loop fd t 1 s) (\<lambda>(fail, st).
     if fail then Inr False
     else bind_e (index_minus1 st) (\<lambda>r. arr_get (fd_st_is_end_table fd) r)))"

text \<open>\<^verbatim>\<open>Compile<pattern, pre_index, AlphabetSize>()\<close>.\<close>

definition Compile :: "C list \<Rightarrow> bool \<Rightarrow> nat \<Rightarrow> (error + FixedDfa) option" where
  "Compile pattern pre_index A =
     (case build pattern of
        None \<Rightarrow> None
      | Some (Inl e) \<Rightarrow> Some (Inl e)
      | Some (Inr (B, D)) \<Rightarrow> Some (FixedDfa_new pre_index A (heap B) D))"

section \<open>Invariants and abstractions\<close>

definition slot_items :: "('k \<times> 'v) option list \<Rightarrow> ('k \<times> 'v) list" where
  "slot_items b = List.map_filter id b"

definition map_inv :: "('k, 'v) map_t \<Rightarrow> bool" where
  "map_inv m \<longleftrightarrow>
     length (map_b m) = map_cap m \<and>
     map_n m = length (slot_items (map_b m)) \<and>
     distinct (map fst (slot_items (map_b m)))"

definition map_lookup :: "('k, 'v) map_t \<Rightarrow> 'k \<Rightarrow> 'v option" where
  "map_lookup m = map_of (map_items m)"

definition map_keys :: "('k, 'v) map_t \<Rightarrow> 'k set" where
  "map_keys m = fst ` set (map_items m)"

definition set_elems :: "'a set_t \<Rightarrow> 'a set" where
  "set_elems s = map_keys s"

definition uq_inv :: "'a unique_queue \<Rightarrow> bool" where
  "uq_inv q \<longleftrightarrow> map_inv (uq_s q) \<and> set_elems (uq_s q) = set (uq_nodes q) \<and> distinct (uq_nodes q)"

definition uq_demo_1 :: "u32 unique_queue" where
  "uq_demo_1 = \<lparr>uq_nodes = [5], uq_s = \<lparr>map_b = [Some (5, True), None, None, None, None, None, None],
                   map_cap = 7, map_n = 1\<rparr>\<rparr>"

definition uq_demo_2 :: "u32 unique_queue" where
  "uq_demo_2 = \<lparr>uq_nodes = [], uq_s = \<lparr>map_b = [None, None, None, None, None, None, None],
                   map_cap = 7, map_n = 0\<rparr>\<rparr>"

text \<open>
  The NFA a store of states describes: the targets of a state on a character, the labelled
  edges, the accepting states. \<open>store_wf\<close> is what holds of the store of a parser at every
  moment: the maps are well formed, the targets are states of the store, and an accepting
  state has no outgoing edge.
\<close>

definition nfa_delta :: "NfaState list \<Rightarrow> nat \<Rightarrow> C \<Rightarrow> nat set" where
  "nfa_delta sts p c =
     (case map_lookup (nfa_transitions (sts ! p)) c of None \<Rightarrow> {} | Some tg \<Rightarrow> set_elems tg)"

definition nfa_edges :: "NfaState list \<Rightarrow> (nat \<times> C \<times> nat) set" where
  "nfa_edges sts = {(p, c, t). p < length sts \<and> t \<in> nfa_delta sts p c}"

definition nfa_ends :: "NfaState list \<Rightarrow> nat set" where
  "nfa_ends sts = {p. p < length sts \<and> st_is_end (sts ! p)}"

definition store_wf :: "NfaState list \<Rightarrow> bool" where
  "store_wf sts \<longleftrightarrow>
     (\<forall>p < length sts. map_inv (nfa_transitions (sts ! p)) \<and>
        (\<forall>c tg. map_lookup (nfa_transitions (sts ! p)) c = Some tg \<longrightarrow>
           map_inv tg \<and> set_elems tg \<noteq> {} \<and> set_elems tg \<subseteq> {..<length sts})) \<and>
     (\<forall>p c t. (p, c, t) \<in> nfa_edges sts \<longrightarrow> p \<notin> nfa_ends sts)"

definition nfa_step :: "NfaState list \<Rightarrow> (nat \<times> nat) set" where
  "nfa_step sts = {(p, t). \<exists>c. (p, c, t) \<in> nfa_edges sts}"

definition frag_ok :: "NfaState list \<Rightarrow> Nfa \<Rightarrow> bool" where
  "frag_ok sts f \<longleftrightarrow>
     nfa_start f < length sts \<and> nfa_end f \<in> nfa_ends sts \<and>
     (nfa_start f, nfa_end f) \<in> (nfa_step sts)\<^sup>*"

definition stack_inv :: "NfaState list \<Rightarrow> Nfa list \<Rightarrow> bool" where
  "stack_inv sts stk \<longleftrightarrow>
     store_wf sts \<and> (\<forall>f \<in> set stk. frag_ok sts f) \<and> distinct (map nfa_end stk) \<and>
     (\<forall>p < length sts. \<exists>f \<in> set stk. (p, nfa_end f) \<in> (nfa_step sts)\<^sup>*)"

definition parser_inv :: "NfaParser \<Rightarrow> bool" where
  "parser_inv P \<longleftrightarrow> stack_inv (states P) (nfa_stack P)"

definition add_all :: "(nat \<times> C \<times> nat) list \<Rightarrow> NfaParser \<Rightarrow> error + NfaParser" where
  "add_all es P = fold_e (\<lambda>(p, c, t). AddTransition p c t) es P"

definition demo_parse :: "NfaParser \<times> Nfa" where
  "demo_parse = projr (the (Parse [0x61, 0x62]))"

definition demo_store :: "NfaState list" where
  "demo_store = [\<lparr>st_id = 1, st_is_end = True, nfa_transitions = map_empty\<rparr>,
                 \<lparr>st_id = 2, st_is_end = True, nfa_transitions = map_empty\<rparr>]"

definition demo_added :: "NfaState list" where
  "demo_added = projr (NfaState_AddTransition demo_store 0 0x61 1)"

definition demo_concat :: "NfaParser \<times> Nfa" where
  "demo_concat = projr (NewNfaFromConcat \<lparr>nfa_start = 0, nfa_end = 0, nfa_size = 1\<rparr>
      \<lparr>nfa_start = 1, nfa_end = 1, nfa_size = 1\<rparr> (NfaParser_new\<lparr>states := demo_store\<rparr>))"



definition push_bottom :: "NfaParser \<Rightarrow> NfaParser" where
  "push_bottom P = P\<lparr>op_stack := op_stack P @ [OP_LEFT_PAIR]\<rparr>"



definition empty_builder :: DfaBuilder where
  "empty_builder =
     \<lparr>b_d = map_empty,
      b_states = \<lparr>map_b = [None, None, Some (276207160, 0), None, None, None, None], map_cap = 7, map_n = 1\<rparr>,
      epsilon_closure_cache = map_empty,
      heap = [\<lparr>st_id = 276207160, st_is_end = True, dfa_no = 1, dfa_transitions = map_empty\<rparr>]\<rparr>"

definition empty_dfa :: Dfa where
  "empty_dfa =
     \<lparr>dfa_start = 0,
      dfa_states = \<lparr>map_b = [None, None, Some (0, True), None, None, None, None], map_cap = 7, map_n = 1\<rparr>,
      dfa_chs = map_empty\<rparr>"

definition empty_fd :: "bool \<Rightarrow> nat \<Rightarrow> FixedDfa" where
  "empty_fd pre A =
     \<lparr>fd_pre_index = pre, fd_AlphabetSize = A, fd_NStates = 1, fd_NChars = 0, fd_chs = [],
      fd_ch_index_table = (if pre then replicate A 0 else [0]),
      fd_transitions = [[]], fd_st_is_end_table = [True]\<rparr>"

section \<open>The containers behave as finite maps, sets and queues\<close>



lemma slot_items_Nil [simp]: "slot_items [] = []"
  by (simp add: slot_items_def map_filter_simps)

lemma slot_items_Cons [simp]:
  "slot_items (x # xs) = (case x of None \<Rightarrow> slot_items xs | Some kv \<Rightarrow> kv # slot_items xs)"
  by (simp add: slot_items_def map_filter_simps split: option.splits)

lemma slot_items_append [simp]: "slot_items (xs @ ys) = slot_items xs @ slot_items ys"
  by (induction xs) (auto split: option.splits)

lemma slot_items_replicate_None [simp]: "slot_items (replicate r None) = []"
  by (induction r) auto

lemma slot_items_map_Some [simp]: "slot_items (map Some xs) = xs"
  by (induction xs) auto

lemma slot_items_split:
  "p < length b \<Longrightarrow>
   slot_items b = slot_items (take p b) @ (case b ! p of None \<Rightarrow> [] | Some kv \<Rightarrow> [kv]) @ slot_items (drop (Suc p) b)"
proof -
  assume "p < length b"
  then have "b = take p b @ (b ! p) # drop (Suc p) b" by (simp add: id_take_nth_drop)
  then have "slot_items b = slot_items (take p b @ (b ! p) # drop (Suc p) b)" by simp
  then show ?thesis by (simp split: option.splits)
qed

lemma slot_items_update:
  "p < length b \<Longrightarrow>
   slot_items (b[p := x]) = slot_items (take p b) @ (case x of None \<Rightarrow> [] | Some kv \<Rightarrow> [kv]) @ slot_items (drop (Suc p) b)"
  by (simp add: upd_conv_take_nth_drop split: option.splits)

lemma slot_items_mem: "kv \<in> set (slot_items b) \<longleftrightarrow> (\<exists>p < length b. b ! p = Some kv)"
proof (induction b)
  case Nil
  then show ?case by simp
next
  case (Cons x xs)
  show ?case
  proof
    assume "kv \<in> set (slot_items (x # xs))"
    then consider "x = Some kv" | "kv \<in> set (slot_items xs)" by (auto split: option.splits)
    then show "\<exists>p<length (x # xs). (x # xs) ! p = Some kv"
    proof cases
      case 1
      then show ?thesis by (intro exI[of _ 0]) simp
    next
      case 2
      then obtain p where "p < length xs" "xs ! p = Some kv" using Cons.IH by auto
      then show ?thesis by (intro exI[of _ "Suc p"]) simp
    qed
  next
    assume "\<exists>p<length (x # xs). (x # xs) ! p = Some kv"
    then obtain p where p: "p < length (x # xs)" "(x # xs) ! p = Some kv" by auto
    show "kv \<in> set (slot_items (x # xs))"
    proof (cases p)
      case 0
      then show ?thesis using p by simp
    next
      case (Suc q)
      then have "kv \<in> set (slot_items xs)" using p Cons.IH by auto
      then show ?thesis by (auto split: option.splits)
    qed
  qed
qed

lemma slot_items_length_le: "length (slot_items b) \<le> length b"
  by (induction b) (auto split: option.splits)

lemma slot_items_full: "length (slot_items b) = length b \<Longrightarrow> p < length b \<Longrightarrow> b ! p \<noteq> None"
proof (induction b arbitrary: p)
  case Nil
  then show ?case by simp
next
  case (Cons x xs)
  have le: "length (slot_items xs) \<le> length xs" by (rule slot_items_length_le)
  show ?case
  proof (cases x)
    case None
    then show ?thesis using Cons.prems le by simp
  next
    case (Some kv)
    then have "length (slot_items xs) = length xs" using Cons.prems by simp
    then show ?thesis using Cons.IH Cons.prems Some by (cases p) auto
  qed
qed

text \<open>The probe sequence visits every slot exactly once.\<close>

lemma mod_pos_inj_le:
  assumes "i \<le> j" "j < c" "mod_pos h k i c = mod_pos h k j c"
  shows "i = j"
proof -
  have e: "(unat (h k) + j) mod c = (unat (h k) + i) mod c" using assms by (simp add: mod_pos_def)
  have "unat (h k) + i \<le> unat (h k) + j" using assms by simp
  then have "c dvd (unat (h k) + j) - (unat (h k) + i)"
    using e by (simp add: mod_eq_dvd_iff_nat)
  then have d: "c dvd j - i" by simp
  have lt: "j - i < c" using assms by simp
  have "j - i = 0"
  proof (rule ccontr)
    assume "j - i \<noteq> 0"
    then have "c \<le> j - i" using d by (simp add: dvd_imp_le)
    then show False using lt by simp
  qed
  then show ?thesis using assms by simp
qed

lemma mod_pos_inj:
  assumes "i < c" "j < c" "mod_pos h k i c = mod_pos h k j c"
  shows "i = j"
proof (cases "i \<le> j")
  case True
  then show ?thesis using assms mod_pos_inj_le [of i j c h k] by simp
next
  case False
  then have "j \<le> i" by simp
  then show ?thesis using assms mod_pos_inj_le [of j i c h k] by simp
qed

lemma probes_distinct: "distinct (probes h k c)"
proof -
  have "inj_on (\<lambda>i. mod_pos h k i c) {0..<c}"
    by (rule inj_onI) (use mod_pos_inj in auto)
  then show ?thesis by (simp add: probes_def distinct_map)
qed

lemma probes_length: "length (probes h k c) = c"
  by (simp add: probes_def)

lemma probes_set: "set (probes h k c) = {0..<c}"
proof -
  have sub: "set (probes h k c) \<subseteq> {0..<c}"
    by (auto simp: probes_def mod_pos_def)
  have "card (set (probes h k c)) = length (probes h k c)"
    by (rule distinct_card) (rule probes_distinct)
  then have "card (set (probes h k c)) = c" by (simp add: probes_length)
  then have "card (set (probes h k c)) = card {0..<c}" by simp
  then show ?thesis using sub by (simp add: card_subset_eq)
qed

text \<open>The invariant of a map and its abstraction to a partial function.\<close>

lemma map_inv_empty: "map_inv map_empty"
  by (simp add: map_inv_def map_empty_def)

lemma map_items_inv: "map_inv m \<Longrightarrow> map_items m = slot_items (map_b m)"
  by (auto simp: map_inv_def map_items_def slot_items_def)

lemma map_items_distinct: "map_inv m \<Longrightarrow> distinct (map fst (map_items m))"
  by (simp add: map_items_inv) (simp add: map_inv_def)

lemma map_n_items: "map_inv m \<Longrightarrow> map_n m = length (map_items m)"
  by (simp add: map_items_inv) (simp add: map_inv_def)

lemma map_lookup_iff:
  "map_inv m \<Longrightarrow> map_lookup m k = Some v \<longleftrightarrow> (\<exists>p < map_cap m. map_b m ! p = Some (k, v))"
proof -
  assume inv: "map_inv m"
  have "map_lookup m k = Some v \<longleftrightarrow> (k, v) \<in> set (map_items m)"
    using map_items_distinct [OF inv] by (simp add: map_lookup_def)
  also have "\<dots> \<longleftrightarrow> (\<exists>p < length (map_b m). map_b m ! p = Some (k, v))"
    by (simp add: map_items_inv [OF inv] slot_items_mem)
  finally show ?thesis using inv by (simp add: map_inv_def)
qed

lemma slot_items_key_unique:
  assumes d: "distinct (map fst (slot_items b))" and "p < q" "q < length b"
    "b ! p = Some (k, v)" "b ! q = Some (k, w)"
  shows False
proof -
  have "(k, v) \<in> set (slot_items (take q b))"
    using assms by (auto simp: slot_items_mem intro!: exI[of _ p])
  then have k1: "k \<in> fst ` set (slot_items (take q b))" by force
  have "slot_items b = slot_items (take q b) @ [(k, w)] @ slot_items (drop (Suc q) b)"
    using slot_items_split [of q b] assms by simp
  then have "distinct (map fst (slot_items (take q b)) @ k # map fst (slot_items (drop (Suc q) b)))"
    using d by simp
  then show False using k1 by auto
qed

lemma map_slot_unique:
  assumes "map_inv m" "p < map_cap m" "q < map_cap m"
    "map_b m ! p = Some (k, v)" "map_b m ! q = Some (k, w)"
  shows "p = q"
proof (rule ccontr)
  assume ne: "p \<noteq> q"
  have d: "distinct (map fst (slot_items (map_b m)))" and l: "length (map_b m) = map_cap m"
    using assms(1) by (simp_all add: map_inv_def)
  have ql: "q < length (map_b m)" and pl: "p < length (map_b m)" using assms l by simp_all
  show False
  proof (cases "p < q")
    case True
    show ?thesis by (rule slot_items_key_unique [OF d True ql assms(4) assms(5)])
  next
    case False
    then have "q < p" using ne by simp
    then show ?thesis by (rule slot_items_key_unique [OF d _ pl assms(5) assms(4)])
  qed
qed

lemma slot_has_key_iff: "slot_has_key k sl \<longleftrightarrow> (\<exists>v. sl = Some (k, v))"
  by (cases sl) auto

lemma slot_free_or_key_iff: "slot_free_or_key k sl \<longleftrightarrow> sl = None \<or> (\<exists>v. sl = Some (k, v))"
  by (cases sl) auto

lemma map_getp_Some:
  assumes "map_getp h m k = Some (p, v)"
  shows "p < map_cap m \<and> map_b m ! p = Some (k, v)"
proof -
  from assms obtain q where f: "find (\<lambda>p. slot_has_key k (map_b m ! p)) (probes h k (map_cap m)) = Some q"
    by (auto simp: map_getp_def split: if_splits option.splits)
  then have q: "q \<in> set (probes h k (map_cap m))" "slot_has_key k (map_b m ! q)"
    by (auto simp: find_Some_iff)
  then obtain w where w: "map_b m ! q = Some (k, w)" by (auto simp: slot_has_key_iff)
  have "map_getp h m k = Some (q, w)" using f w assms by (auto simp: map_getp_def split: if_splits)
  then show ?thesis using assms q w by (simp add: probes_set)
qed

lemma map_getp_None:
  assumes "map_inv m" "map_getp h m k = None"
  shows "map_lookup m k = None"
proof (cases "map_n m = 0")
  case True
  then show ?thesis by (simp add: map_lookup_def map_items_def)
next
  case False
  show ?thesis
  proof (rule ccontr)
    assume "map_lookup m k \<noteq> None"
    then obtain v where "map_lookup m k = Some v" by auto
    then obtain p where p: "p < map_cap m" "map_b m ! p = Some (k, v)"
      using map_lookup_iff [OF assms(1)] by blast
    have "find (\<lambda>p. slot_has_key k (map_b m ! p)) (probes h k (map_cap m)) \<noteq> None"
      using p by (auto simp: find_None_iff probes_set)
    then obtain q where f: "find (\<lambda>p. slot_has_key k (map_b m ! p)) (probes h k (map_cap m)) = Some q"
      by auto
    then have "slot_has_key k (map_b m ! q)" by (auto simp: find_Some_iff)
    then obtain w where "map_b m ! q = Some (k, w)" by (auto simp: slot_has_key_iff)
    then have "map_getp h m k = Some (q, w)" using f False by (simp add: map_getp_def)
    then show False using assms by simp
  qed
qed

lemma map_getp_lookup:
  assumes "map_inv m"
  shows "map_option snd (map_getp h m k) = map_lookup m k"
proof (cases "map_getp h m k")
  case None
  then show ?thesis using map_getp_None [OF assms] by simp
next
  case (Some pv)
  obtain p v where pv: "pv = (p, v)" by (cases pv)
  have "p < map_cap m \<and> map_b m ! p = Some (k, v)" using map_getp_Some Some pv by fastforce
  then have "map_lookup m k = Some v" using map_lookup_iff [OF assms] by blast
  then show ?thesis using Some pv by simp
qed

lemma map_has_iff: "map_inv m \<Longrightarrow> map_has h m k \<longleftrightarrow> k \<in> dom (map_lookup m)"
  using map_getp_lookup [of m h k, symmetric] by (auto simp: map_has_def split: option.splits)

lemma map_get_lookup:
  "map_inv m \<Longrightarrow> map_get h m k = (case map_lookup m k of None \<Rightarrow> Inl NotFound | Some v \<Rightarrow> Inr v)"
  using map_getp_lookup [of m h k, symmetric] by (auto simp: map_get_def split: option.splits)

lemma map_keys_dom: "map_keys m = dom (map_lookup m)"
  by (simp add: map_keys_def map_lookup_def dom_map_of_conv_image_fst)

lemma map_n_card: "map_inv m \<Longrightarrow> map_n m = card (map_keys m)"
proof -
  assume inv: "map_inv m"
  have "card (map_keys m) = card (set (map fst (map_items m)))" by (simp add: map_keys_def)
  also have "\<dots> = length (map fst (map_items m))"
    by (rule distinct_card) (rule map_items_distinct [OF inv])
  finally show ?thesis using map_n_items [OF inv] by simp
qed

text \<open>\<^verbatim>\<open>resize\<close> keeps the entries and their order.\<close>

lemma put_first_free_packed:
  "put_first_free (map Some xs @ replicate (Suc r) None) kv = map Some (xs @ [kv]) @ replicate r None"
  by (induction xs) auto

lemma resize_fold_packed:
  "length (slot_items ss) \<le> r \<Longrightarrow>
   foldl (\<lambda>nb sl. case sl of None \<Rightarrow> nb | Some kv \<Rightarrow> put_first_free nb kv)
     (map Some xs @ replicate r None) ss
   = map Some (xs @ slot_items ss) @ replicate (r - length (slot_items ss)) None"
proof (induction ss arbitrary: xs r)
  case Nil
  then show ?case by simp
next
  case (Cons sl ss)
  show ?case
  proof (cases sl)
    case None
    then show ?thesis using Cons by simp
  next
    case (Some kv)
    then obtain r' where r': "r = Suc r'" using Cons.prems by (cases r) auto
    have "length (slot_items ss) \<le> r'" using Cons.prems Some r' by simp
    from Cons.IH [OF this, of "xs @ [kv]"] show ?thesis
      using Some r' by (simp add: put_first_free_packed del: replicate_Suc)
  qed
qed

lemma map_resize_eq:
  assumes "map_inv m"
  shows "map_resize m = m\<lparr>map_b := map Some (map_items m) @ replicate (max (map_cap m * 2) 7 - map_n m) None,
                         map_cap := max (map_cap m * 2) 7\<rparr>"
proof -
  have l: "length (map_b m) = map_cap m" and n: "map_n m = length (slot_items (map_b m))"
    using assms by (simp_all add: map_inv_def)
  have "length (slot_items (map_b m)) \<le> max (map_cap m * 2) 7"
    using slot_items_length_le [of "map_b m"] l by simp
  from resize_fold_packed [OF this, of "[]"] show ?thesis
    using l n by (simp add: map_resize_def Let_def map_items_inv [OF assms])
qed

lemma map_resize_inv:
  assumes "map_inv m"
  shows "map_inv (map_resize m)" "map_items (map_resize m) = map_items m"
    "map_n (map_resize m) = map_n m" "map_n (map_resize m) < map_cap (map_resize m)"
proof -
  have l: "length (map_b m) = map_cap m" and n: "map_n m = length (slot_items (map_b m))"
    and d: "distinct (map fst (slot_items (map_b m)))"
    using assms by (simp_all add: map_inv_def)
  have le: "map_n m \<le> map_cap m" using slot_items_length_le [of "map_b m"] l n by simp
  show i: "map_inv (map_resize m)"
    using l n d le by (simp add: map_resize_eq [OF assms] map_inv_def map_items_inv [OF assms])
  show "map_items (map_resize m) = map_items m"
    by (simp add: map_items_inv [OF i]) (simp add: map_resize_eq [OF assms])
  show "map_n (map_resize m) = map_n m" by (simp add: map_resize_eq [OF assms])
  show "map_n (map_resize m) < map_cap (map_resize m)"
    using le by (simp add: map_resize_eq [OF assms])
qed


text \<open>Association lists around one slot.\<close>

lemma map_of_insert_mid:
  "k \<notin> fst ` set A \<Longrightarrow> map_of (A @ (k, v) # B) = (map_of (A @ B))(k \<mapsto> v)"
  by (induction A) (auto simp: fun_eq_iff)

lemma map_of_delete_mid:
  "k \<notin> fst ` set A \<Longrightarrow> k \<notin> fst ` set B \<Longrightarrow> map_of (A @ B) = (map_of (A @ (k, v) # B))(k := None)"
proof (induction A)
  case Nil
  then show ?case by (auto simp: fun_eq_iff map_of_eq_None_iff)
next
  case (Cons a A)
  then show ?case by (auto simp: fun_eq_iff)
qed

lemma slot_items_has_free:
  assumes "length (slot_items b) < length b"
  shows "\<exists>p < length b. b ! p = None"
proof (rule ccontr)
  assume "\<not> (\<exists>p < length b. b ! p = None)"
  then have "\<forall>x \<in> set b. x \<noteq> None" by (auto simp: in_set_conv_nth)
  then have "length (slot_items b) = length b"
    by (induction b) (auto split: option.splits)
  then show False using assms by simp
qed

text \<open>Writing one slot of a map.\<close>

lemma slot_write_fresh:
  assumes inv: "map_inv m" and p: "p < map_cap m" "map_b m ! p = None"
    and k: "map_lookup m k = None"
  shows "map_inv (m\<lparr>map_b := (map_b m)[p := Some (k, v)], map_n := map_n m + 1\<rparr>)"
    and "map_lookup (m\<lparr>map_b := (map_b m)[p := Some (k, v)], map_n := map_n m + 1\<rparr>) = (map_lookup m)(k \<mapsto> v)"
proof -
  let ?b = "map_b m"
  let ?A = "slot_items (take p ?b)" and ?B = "slot_items (drop (Suc p) ?b)"
  let ?m' = "m\<lparr>map_b := ?b[p := Some (k, v)], map_n := map_n m + 1\<rparr>"
  have l: "length ?b = map_cap m" and n: "map_n m = length (slot_items ?b)"
    and d: "distinct (map fst (slot_items ?b))"
    using inv by (simp_all add: map_inv_def)
  have old: "slot_items ?b = ?A @ ?B" using slot_items_split [of p ?b] p l by simp
  have new: "slot_items (?b[p := Some (k, v)]) = ?A @ (k, v) # ?B"
    using slot_items_update [of p ?b "Some (k, v)"] p l by simp
  have "k \<notin> fst ` set (map_items m)"
    using k by (simp add: map_lookup_def map_of_eq_None_iff)
  then have nk: "k \<notin> fst ` set (?A @ ?B)" using old by (simp add: map_items_inv [OF inv])
  show i: "map_inv ?m'"
    using l n d nk old new by (auto simp: map_inv_def)
  have "map_items ?m' = slot_items (map_b ?m')" by (rule map_items_inv [OF i])
  then have "map_items ?m' = ?A @ (k, v) # ?B" using new by simp
  then have "map_lookup ?m' = map_of (?A @ (k, v) # ?B)" by (simp only: map_lookup_def)
  also have "\<dots> = (map_of (?A @ ?B))(k \<mapsto> v)" using nk by (intro map_of_insert_mid) auto
  also have "map_of (?A @ ?B) = map_lookup m"
    using old by (simp only: map_lookup_def map_items_inv [OF inv])
  finally show "map_lookup ?m' = (map_lookup m)(k \<mapsto> v)" .
qed

lemma slot_write_same_key:
  assumes inv: "map_inv m" and p: "p < map_cap m" "map_b m ! p = Some (k, v0)"
  shows "map_inv (m\<lparr>map_b := (map_b m)[p := Some (k, v)]\<rparr>)"
    and "map_lookup (m\<lparr>map_b := (map_b m)[p := Some (k, v)]\<rparr>) = (map_lookup m)(k \<mapsto> v)"
    and "map_keys (m\<lparr>map_b := (map_b m)[p := Some (k, v)]\<rparr>) = map_keys m"
proof -
  let ?b = "map_b m"
  let ?A = "slot_items (take p ?b)" and ?B = "slot_items (drop (Suc p) ?b)"
  let ?m' = "m\<lparr>map_b := ?b[p := Some (k, v)]\<rparr>"
  have l: "length ?b = map_cap m" and n: "map_n m = length (slot_items ?b)"
    and d: "distinct (map fst (slot_items ?b))"
    using inv by (simp_all add: map_inv_def)
  have old: "slot_items ?b = ?A @ (k, v0) # ?B" using slot_items_split [of p ?b] p l by simp
  have new: "slot_items (?b[p := Some (k, v)]) = ?A @ (k, v) # ?B"
    using slot_items_update [of p ?b "Some (k, v)"] p l by simp
  have nk: "k \<notin> fst ` set ?A" using d old by auto
  show i: "map_inv ?m'"
    using l n d old new by (auto simp: map_inv_def)
  have "map_items ?m' = slot_items (map_b ?m')" by (rule map_items_inv [OF i])
  then have "map_items ?m' = ?A @ (k, v) # ?B" using new by simp
  then have "map_lookup ?m' = map_of (?A @ (k, v) # ?B)" by (simp only: map_lookup_def)
  then have 1: "map_lookup ?m' = (map_of (?A @ ?B))(k \<mapsto> v)"
    by (simp only: map_of_insert_mid [OF nk])
  have "map_lookup m = map_of (?A @ (k, v0) # ?B)"
    using old by (simp only: map_lookup_def map_items_inv [OF inv])
  then have 2: "map_lookup m = (map_of (?A @ ?B))(k \<mapsto> v0)"
    by (simp only: map_of_insert_mid [OF nk])
  show lk: "map_lookup ?m' = (map_lookup m)(k \<mapsto> v)" unfolding 1 2 by simp
  have "k \<in> dom (map_lookup m)" using map_lookup_iff [OF inv] p by blast
  then show "map_keys ?m' = map_keys m" by (auto simp: map_keys_dom lk)
qed

lemma slot_clear:
  assumes inv: "map_inv m" and p: "p < map_cap m" "map_b m ! p = Some (k, v0)"
  shows "map_inv (m\<lparr>map_b := (map_b m)[p := None], map_n := map_n m - 1\<rparr>)"
    and "map_lookup (m\<lparr>map_b := (map_b m)[p := None], map_n := map_n m - 1\<rparr>) = (map_lookup m)(k := None)"
proof -
  let ?b = "map_b m"
  let ?A = "slot_items (take p ?b)" and ?B = "slot_items (drop (Suc p) ?b)"
  let ?m' = "m\<lparr>map_b := ?b[p := None], map_n := map_n m - 1\<rparr>"
  have l: "length ?b = map_cap m" and n: "map_n m = length (slot_items ?b)"
    and d: "distinct (map fst (slot_items ?b))"
    using inv by (simp_all add: map_inv_def)
  have old: "slot_items ?b = ?A @ (k, v0) # ?B" using slot_items_split [of p ?b] p l by simp
  have new: "slot_items (?b[p := None]) = ?A @ ?B"
    using slot_items_update [of p ?b None] p l by simp
  have nk: "k \<notin> fst ` set ?A" "k \<notin> fst ` set ?B" using d old by auto
  show i: "map_inv ?m'"
    using l n d old new by (auto simp: map_inv_def)
  have "map_items ?m' = slot_items (map_b ?m')" by (rule map_items_inv [OF i])
  then have "map_items ?m' = ?A @ ?B" using new by simp
  then have "map_lookup ?m' = map_of (?A @ ?B)" by (simp only: map_lookup_def)
  also have "\<dots> = (map_of (?A @ (k, v0) # ?B))(k := None)" using nk by (rule map_of_delete_mid)
  also have "map_of (?A @ (k, v0) # ?B) = map_lookup m"
    using old by (simp only: map_lookup_def map_items_inv [OF inv])
  finally show "map_lookup ?m' = (map_lookup m)(k := None)" .
qed


text \<open>\<^verbatim>\<open>set\<close> of a key that is not in the map.\<close>

lemma map_set_fresh:
  assumes inv: "map_inv m" and k: "map_lookup m k = None"
  obtains m' where "map_set h m k v = (True, m')" "map_inv m'"
    "map_lookup m' = (map_lookup m)(k \<mapsto> v)" "map_n m' = map_n m + 1"
proof -
  define m1 where "m1 = (if map_cap m < map_n m + 1 \<or> 4 * map_cap m < 5 * (map_n m + 1)
                then map_resize m else m)"
  have i1: "map_inv m1" and it1: "map_items m1 = map_items m" and n1: "map_n m1 = map_n m"
    and lt1: "map_n m1 < map_cap m1"
    using map_resize_inv [OF inv] inv by (auto simp: m1_def)
  have k1: "map_lookup m1 k = None" using k it1 by (simp add: map_lookup_def)
  have l: "length (map_b m1) = map_cap m1" and n: "map_n m1 = length (slot_items (map_b m1))"
    using i1 by (simp_all add: map_inv_def)
  obtain q where q: "q < map_cap m1" "map_b m1 ! q = None"
    using slot_items_has_free [of "map_b m1"] lt1 l n by auto
  have "find (\<lambda>p. slot_free_or_key k (map_b m1 ! p)) (probes h k (map_cap m1)) \<noteq> None"
    using q by (auto simp: find_None_iff probes_set)
  then obtain p where f: "find (\<lambda>p. slot_free_or_key k (map_b m1 ! p)) (probes h k (map_cap m1)) = Some p"
    by auto
  then have p: "p < map_cap m1" "slot_free_or_key k (map_b m1 ! p)"
    using probes_set [of h k "map_cap m1"] by (auto simp: find_Some_iff)
  have pn: "map_b m1 ! p = None"
  proof (rule ccontr)
    assume "map_b m1 ! p \<noteq> None"
    then obtain w where "map_b m1 ! p = Some (k, w)" using p by (auto simp: slot_free_or_key_iff)
    then have "map_lookup m1 k = Some w" using map_lookup_iff [OF i1] p by blast
    then show False using k1 by simp
  qed
  let ?m' = "m1\<lparr>map_b := (map_b m1)[p := Some (k, v)], map_n := map_n m1 + 1\<rparr>"
  have ms: "map_set h m k v =
     (case find (\<lambda>p. slot_free_or_key k (map_b m1 ! p)) (probes h k (map_cap m1)) of
           None \<Rightarrow> (False, m1)
         | Some p \<Rightarrow>
             (True, m1\<lparr>map_b := (map_b m1)[p := Some (k, v)],
                       map_n := (if map_b m1 ! p = None then map_n m1 + 1 else map_n m1)\<rparr>))"
    unfolding map_set_def Let_def m1_def by (rule refl)
  have 1: "map_set h m k v = (True, ?m')" using f pn by (simp add: ms)
  have 2: "map_inv ?m'" by (rule slot_write_fresh(1) [OF i1 p(1) pn k1])
  have "map_lookup m1 = map_lookup m" using it1 by (simp add: map_lookup_def)
  then have 3: "map_lookup ?m' = (map_lookup m)(k \<mapsto> v)"
    using slot_write_fresh(2) [OF i1 p(1) pn k1, of v] by simp
  have 4: "map_n ?m' = map_n m + 1" using n1 by simp
  show thesis by (rule that [OF 1 2 3 4])
qed

lemma map_getp_present:
  assumes inv: "map_inv m" and k: "map_lookup m k = Some v"
  obtains p where "map_getp h m k = Some (p, v)" "p < map_cap m" "map_b m ! p = Some (k, v)"
proof -
  have "map_option snd (map_getp h m k) = Some v" using map_getp_lookup [OF inv] k by simp
  then obtain p where g: "map_getp h m k = Some (p, v)" by (cases "map_getp h m k") auto
  then have "p < map_cap m \<and> map_b m ! p = Some (k, v)" by (rule map_getp_Some)
  then show thesis using that g by simp
qed

lemma map_at_ok:
  assumes inv: "map_inv m"
  obtains m' p v where "map_at h dflt m k = Inr (m', p, v)" "map_inv m'" "p < map_cap m'"
    "map_b m' ! p = Some (k, v)"
    "v = (case map_lookup m k of None \<Rightarrow> dflt | Some w \<Rightarrow> w)"
    "map_lookup m' = (map_lookup m)(k \<mapsto> v)"
    "map_n m' = (if k \<in> map_keys m then map_n m else map_n m + 1)"
proof (cases "map_lookup m k")
  case None
  then have g: "map_getp h m k = None" using map_getp_lookup [OF inv, of h k] by simp
  obtain m' where m': "map_set h m k dflt = (True, m')" "map_inv m'"
    "map_lookup m' = (map_lookup m)(k \<mapsto> dflt)" "map_n m' = map_n m + 1"
    using map_set_fresh [OF inv None] by metis
  have "map_lookup m' k = Some dflt" using m'(3) by simp
  from map_getp_present [OF m'(2) this]
  obtain p where p: "map_getp h m' k = Some (p, dflt)" "p < map_cap m'" "map_b m' ! p = Some (k, dflt)"
    by metis
  have 1: "map_at h dflt m k = Inr (m', p, dflt)" using g m'(1) p(1) by (simp add: map_at_def)
  have k: "k \<notin> map_keys m" using None by (auto simp: map_keys_dom)
  have 5: "dflt = (case map_lookup m k of None \<Rightarrow> dflt | Some w \<Rightarrow> w)" using None by simp
  have 7: "map_n m' = (if k \<in> map_keys m then map_n m else map_n m + 1)" using k m'(4) by simp
  show thesis by (rule that [OF 1 m'(2) p(2) p(3) 5 m'(3) 7])
next
  case (Some w)
  from map_getp_present [OF inv Some]
  obtain p where p: "map_getp h m k = Some (p, w)" "p < map_cap m" "map_b m ! p = Some (k, w)"
    by metis
  have 1: "map_at h dflt m k = Inr (m, p, w)" using p(1) by (simp add: map_at_def)
  have k: "k \<in> map_keys m" using Some by (auto simp: map_keys_dom)
  have 6: "map_lookup m = (map_lookup m)(k \<mapsto> w)" using Some by (auto simp: fun_eq_iff)
  have 5: "w = (case map_lookup m k of None \<Rightarrow> dflt | Some w \<Rightarrow> w)" using Some by simp
  have 7: "map_n m = (if k \<in> map_keys m then map_n m else map_n m + 1)" using k by simp
  show thesis by (rule that [OF 1 inv p(2) p(3) 5 6 7])
qed

lemma map_store_ok:
  assumes inv: "map_inv m" and p: "p < map_cap m" "map_b m ! p = Some (k, v0)"
  shows "map_inv (map_store m p v)" "map_lookup (map_store m p v) = (map_lookup m)(k \<mapsto> v)"
    "map_n (map_store m p v) = map_n m"
proof -
  have e: "map_store m p v = m\<lparr>map_b := (map_b m)[p := Some (k, v)]\<rparr>"
    using p by (simp add: map_store_def)
  show "map_inv (map_store m p v)" unfolding e by (rule slot_write_same_key(1) [OF inv p])
  show "map_lookup (map_store m p v) = (map_lookup m)(k \<mapsto> v)"
    unfolding e by (rule slot_write_same_key(2) [OF inv p])
  show "map_n (map_store m p v) = map_n m" unfolding e by simp
qed

lemma map_assign_ok:
  assumes inv: "map_inv m"
  obtains m' where "map_assign h dflt m k v = Inr m'" "map_inv m'"
    "map_lookup m' = (map_lookup m)(k \<mapsto> v)"
    "map_n m' = (if k \<in> map_keys m then map_n m else map_n m + 1)"
proof -
  from map_at_ok [OF inv, of h dflt k]
  obtain m1 p v0 where a: "map_at h dflt m k = Inr (m1, p, v0)" "map_inv m1" "p < map_cap m1"
    "map_b m1 ! p = Some (k, v0)" "map_lookup m1 = (map_lookup m)(k \<mapsto> v0)"
    "map_n m1 = (if k \<in> map_keys m then map_n m else map_n m + 1)"
    by metis
  have 1: "map_assign h dflt m k v = Inr (map_store m1 p v)" using a(1) by (simp add: map_assign_def)
  have 2: "map_inv (map_store m1 p v)" by (rule map_store_ok(1) [OF a(2,3,4)])
  have 3: "map_lookup (map_store m1 p v) = (map_lookup m)(k \<mapsto> v)"
    using map_store_ok(2) [OF a(2,3,4), of v] a(5) by simp
  have 4: "map_n (map_store m1 p v) = (if k \<in> map_keys m then map_n m else map_n m + 1)"
    using map_store_ok(3) [OF a(2,3,4), of v] a(6) by simp
  show thesis by (rule that [OF 1 2 3 4])
qed


text \<open>\<^verbatim>\<open>pop\<close> removes the one slot that holds the key.\<close>

lemma pop_fold_noop:
  "\<forall>p \<in> set ps. \<not> slot_has_key k (map_b m ! p) \<Longrightarrow>
   foldl (\<lambda>m p. if slot_has_key k (map_b m ! p)
                  then m\<lparr>map_b := (map_b m)[p := None], map_n := map_n m - 1\<rparr> else m) m ps = m"
  by (induction ps) auto

lemma map_pop_ok:
  assumes inv: "map_inv m"
  shows "map_inv (map_pop h m k)" "map_lookup (map_pop h m k) = (map_lookup m)(k := None)"
proof -
  let ?F = "\<lambda>m p. if slot_has_key k (map_b m ! p)
                  then m\<lparr>map_b := (map_b m)[p := None], map_n := map_n m - 1\<rparr> else m"
  have l: "length (map_b m) = map_cap m" using inv by (simp add: map_inv_def)
  have "map_inv (map_pop h m k) \<and> map_lookup (map_pop h m k) = (map_lookup m)(k := None)"
  proof (cases "map_lookup m k")
    case None
    have "\<forall>p \<in> set (probes h k (map_cap m)). \<not> slot_has_key k (map_b m ! p)"
    proof
      fix p assume "p \<in> set (probes h k (map_cap m))"
      then have "p < map_cap m" by (simp add: probes_set)
      then show "\<not> slot_has_key k (map_b m ! p)"
        using map_lookup_iff [OF inv, of k] None by (auto simp: slot_has_key_iff)
    qed
    then have "map_pop h m k = m" by (simp add: map_pop_def pop_fold_noop)
    moreover have "(map_lookup m)(k := None) = map_lookup m" using None by (auto simp: fun_eq_iff)
    ultimately show ?thesis using inv by simp
  next
    case (Some v)
    then obtain q where q: "q < map_cap m" "map_b m ! q = Some (k, v)"
      using map_lookup_iff [OF inv] by blast
    have "map_items m \<noteq> []" using Some by (auto simp: map_lookup_def)
    then have n0: "map_n m \<noteq> 0" using map_n_items [OF inv] by simp
    have "q \<in> set (probes h k (map_cap m))" using q by (simp add: probes_set)
    then obtain ps1 ps2 where sp: "probes h k (map_cap m) = ps1 @ q # ps2"
      by (auto dest: split_list)
    have dq: "q \<notin> set ps1" "q \<notin> set ps2"
      using probes_distinct [of h k "map_cap m"] sp by auto
    have lt: "\<forall>p \<in> set ps1 \<union> set ps2. p < map_cap m"
      using probes_set [of h k "map_cap m"] sp by auto
    have other: "\<And>p. p < map_cap m \<Longrightarrow> p \<noteq> q \<Longrightarrow> \<not> slot_has_key k (map_b m ! p)"
      using map_slot_unique [OF inv _ q(1) _ q(2)] by (auto simp: slot_has_key_iff)
    let ?m' = "m\<lparr>map_b := (map_b m)[q := None], map_n := map_n m - 1\<rparr>"
    have 1: "foldl ?F m ps1 = m"
      by (rule pop_fold_noop) (use other lt dq in auto)
    have 2: "foldl ?F ?m' ps2 = ?m'"
    proof (rule pop_fold_noop, rule ballI)
      fix p assume "p \<in> set ps2"
      then have "p < map_cap m" "p \<noteq> q" using lt dq by auto
      then show "\<not> slot_has_key k (map_b ?m' ! p)" using other by simp
    qed
    have "foldl ?F m (ps1 @ q # ps2) = foldl ?F (?F (foldl ?F m ps1) q) ps2" by simp
    also have "\<dots> = foldl ?F ?m' ps2" using q by (simp add: 1)
    finally have "foldl ?F m (probes h k (map_cap m)) = ?m'" using sp 2 by simp
    then have "map_pop h m k = ?m'" using n0 by (simp add: map_pop_def)
    then show ?thesis using slot_clear [OF inv q] by simp
  qed
  then show "map_inv (map_pop h m k)" "map_lookup (map_pop h m k) = (map_lookup m)(k := None)"
    by simp_all
qed

lemma map_pop_n: "map_inv m \<Longrightarrow> map_n (map_pop h m k) = card (map_keys m - {k})"
proof -
  assume inv: "map_inv m"
  have "map_n (map_pop h m k) = card (map_keys (map_pop h m k))"
    by (rule map_n_card) (rule map_pop_ok(1) [OF inv])
  also have "map_keys (map_pop h m k) = map_keys m - {k}"
    by (auto simp: map_keys_dom map_pop_ok(2) [OF inv])
  finally show ?thesis .
qed

section \<open>Sets and the queue, abstractly\<close>

lemma set_has_iff: "map_inv s \<Longrightarrow> set_has h s v \<longleftrightarrow> v \<in> set_elems s"
  by (simp add: set_has_def map_has_iff set_elems_def map_keys_dom)

lemma set_add_ok:
  assumes "map_inv s"
  obtains s' where "set_add h s v = Inr s'" "map_inv s'" "set_elems s' = insert v (set_elems s)"
proof -
  from map_assign_ok [OF assms, of h False v True]
  obtain s' where s': "map_assign h False s v True = Inr s'" "map_inv s'"
    "map_lookup s' = (map_lookup s)(v \<mapsto> True)" by metis
  have "set_elems s' = insert v (set_elems s)"
    by (simp add: set_elems_def map_keys_dom s'(3))
  then show thesis using that s' by (simp add: set_add_def)
qed

lemma set_pop_ok:
  assumes "map_inv s"
  shows "map_inv (set_pop h s v)" "set_elems (set_pop h s v) = set_elems s - {v}"
  using map_pop_ok [OF assms, of h v] by (auto simp: set_pop_def set_elems_def map_keys_dom)

lemma set_items_elems: "set (set_items s) = set_elems s"
  by (simp add: set_items_def set_elems_def map_keys_def)

lemma set_items_distinct: "map_inv s \<Longrightarrow> distinct (set_items s)"
  by (simp add: set_items_def map_items_distinct)

lemma set_n_card: "map_inv s \<Longrightarrow> map_n s = card (set_elems s)"
  by (simp add: set_elems_def map_n_card)

lemma set_fold_add_ok:
  assumes "map_inv s"
  obtains s' where "fold_e (\<lambda>v s. set_add h s v) vs s = Inr s'" "map_inv s'"
    "set_elems s' = set_elems s \<union> set vs"
  using assms
proof (induction vs arbitrary: s thesis)
  case Nil
  then show ?case by simp
next
  case (Cons v vs)
  from set_add_ok [OF Cons.prems(2), of h v]
  obtain s1 where s1: "set_add h s v = Inr s1" "map_inv s1" "set_elems s1 = insert v (set_elems s)"
    by metis
  from Cons.IH [OF _ s1(2)]
  obtain s' where s': "fold_e (\<lambda>v s. set_add h s v) vs s1 = Inr s'" "map_inv s'"
    "set_elems s' = set_elems s1 \<union> set vs" by metis
  show ?case
    by (rule Cons.prems(1) [of s']) (use s1 s' in auto)
qed

lemma set_merge_ok:
  assumes "map_inv s"
  obtains s' where "set_merge h s other = Inr s'" "map_inv s'"
    "set_elems s' = set_elems s \<union> set_elems other"
  using set_fold_add_ok [OF assms, of h "set_items other"]
  by (metis set_merge_def set_items_elems)


lemma uq_inv_new: "uq_inv uq_new"
  using map_inv_empty [where ?'a = 'a and ?'b = bool]
  by (simp add: uq_inv_def uq_new_def set_elems_def map_keys_def map_items_def map_empty_def)

lemma uq_has_iff: "uq_inv q \<Longrightarrow> uq_has h q v \<longleftrightarrow> v \<in> set (uq_nodes q)"
  by (simp add: uq_inv_def uq_has_def set_has_iff)

lemma uq_empty_iff: "uq_inv q \<Longrightarrow> uq_empty q \<longleftrightarrow> uq_nodes q = []"
proof -
  assume i: "uq_inv q"
  then have "map_n (uq_s q) = card (set (uq_nodes q))"
    using set_n_card [of "uq_s q"] by (simp add: uq_inv_def)
  then show ?thesis by (simp add: uq_empty_def)
qed

lemma uq_push_member: "uq_inv q \<Longrightarrow> v \<in> set (uq_nodes q) \<Longrightarrow> uq_push h q v = Inr (False, q)"
  by (simp add: uq_push_def uq_inv_def set_has_iff)

lemma uq_push_fresh:
  assumes i: "uq_inv q" and v: "v \<notin> set (uq_nodes q)"
  obtains q' where "uq_push h q v = Inr (True, q')" "uq_nodes q' = uq_nodes q @ [v]" "uq_inv q'"
proof -
  have mi: "map_inv (uq_s q)" and el: "set_elems (uq_s q) = set (uq_nodes q)"
    and d: "distinct (uq_nodes q)" using i by (simp_all add: uq_inv_def)
  from set_add_ok [OF mi, of h v]
  obtain s' where s': "set_add h (uq_s q) v = Inr s'" "map_inv s'"
    "set_elems s' = insert v (set_elems (uq_s q))" by metis
  let ?q' = "\<lparr>uq_nodes = uq_nodes q @ [v], uq_s = s'\<rparr>"
  have 1: "uq_push h q v = Inr (True, ?q')" using v s'(1) mi el by (simp add: uq_push_def set_has_iff)
  have 3: "uq_inv ?q'" using s' el d v by (simp add: uq_inv_def)
  show thesis by (rule that [OF 1 _ 3]) simp
qed

lemma uq_pop_ok:
  assumes i: "uq_inv q" and p: "uq_pop h q = Inr (x, q')"
  shows "uq_inv q'" "uq_nodes q = x # uq_nodes q'" "x \<notin> set (uq_nodes q')"
proof -
  have mi: "map_inv (uq_s q)" and el: "set_elems (uq_s q) = set (uq_nodes q)"
    and d: "distinct (uq_nodes q)" using i by (simp_all add: uq_inv_def)
  from p obtain rest where r: "uq_nodes q = x # rest"
    "q' = \<lparr>uq_nodes = rest, uq_s = set_pop h (uq_s q) x\<rparr>"
    by (auto simp: uq_pop_def split: if_splits list.splits)
  show "uq_nodes q = x # uq_nodes q'" using r by simp
  show "x \<notin> set (uq_nodes q')" using r d by simp
  show "uq_inv q'" using r d el set_pop_ok [OF mi, of h x] by (auto simp: uq_inv_def)
qed

text \<open>
  Claim C6, as stated: a value that was pushed and then popped can never be pushed again.
  The code does otherwise: \<^verbatim>\<open>pop\<close> removes the value from the set (\<^verbatim>\<open>s.pop(v)\<close>), so on
  the queue that held only 5 and was popped, \<^verbatim>\<open>push(5)\<close> returns true and the queue holds 5
  again.
\<close>

theorem uq_push_after_pop_counterexample:
  "uq_push hash_u32 uq_new 5 = Inr (True, uq_demo_1) \<and>
   uq_pop hash_u32 uq_demo_1 = Inr (5, uq_demo_2) \<and>
   uq_push hash_u32 uq_demo_2 5 = Inr (True, uq_demo_1)"
  by code_simp

text \<open>
  Claim C6, amended: on every queue that satisfies the invariant of the class (the set holds
  exactly the values of the list, each once; the new queue does, and \<^verbatim>\<open>push\<close> and
  \<^verbatim>\<open>pop\<close> keep it), \<^verbatim>\<open>push(v)\<close> is a no-op returning false when \<open>v\<close> is in the queue
  at that moment, and otherwise appends \<open>v\<close> and returns true; \<^verbatim>\<open>pop\<close> takes the front value
  out of the list and out of the set, so that the value just popped can be pushed again.
\<close>

theorem uq_push_false_iff_queued:
  assumes "uq_inv q"
  shows "(v \<in> set (uq_nodes q) \<longrightarrow> uq_push h q v = Inr (False, q)) \<and>
         (v \<notin> set (uq_nodes q) \<longrightarrow>
            (\<exists>q'. uq_push h q v = Inr (True, q') \<and> uq_nodes q' = uq_nodes q @ [v] \<and> uq_inv q')) \<and>
         (\<forall>x q'. uq_pop h q = Inr (x, q') \<longrightarrow>
            uq_inv q' \<and> uq_nodes q = x # uq_nodes q' \<and> \<not> uq_has h q' x \<and>
            (\<exists>q''. uq_push h q' x = Inr (True, q'') \<and> uq_nodes q'' = uq_nodes q' @ [x]))"
proof (intro conjI impI allI)
  assume "v \<in> set (uq_nodes q)"
  then show "uq_push h q v = Inr (False, q)" using assms by (rule uq_push_member [rotated])
next
  assume "v \<notin> set (uq_nodes q)"
  from uq_push_fresh [OF assms this, of h]
  show "\<exists>q'. uq_push h q v = Inr (True, q') \<and> uq_nodes q' = uq_nodes q @ [v] \<and> uq_inv q'"
    by metis
next
  fix x q' assume p: "uq_pop h q = Inr (x, q')"
  show i': "uq_inv q'" by (rule uq_pop_ok(1) [OF assms p])
  show "uq_nodes q = x # uq_nodes q'" by (rule uq_pop_ok(2) [OF assms p])
  have nx: "x \<notin> set (uq_nodes q')" by (rule uq_pop_ok(3) [OF assms p])
  then show "\<not> uq_has h q' x" using uq_has_iff [OF i'] by simp
  from uq_push_fresh [OF i' nx, of h]
  show "\<exists>q''. uq_push h q' x = Inr (True, q'') \<and> uq_nodes q'' = uq_nodes q' @ [x]" by metis
qed

theorem uq_push_false_iff_queued_witness:
  "uq_inv uq_demo_1 \<and> uq_push hash_u32 uq_demo_1 5 = Inr (False, uq_demo_1) \<and>
   (\<exists>q'. uq_push hash_u32 uq_demo_1 7 = Inr (True, q') \<and> uq_nodes q' = [5, 7] \<and> uq_inv q') \<and>
   uq_pop hash_u32 uq_demo_1 = Inr (5, uq_demo_2) \<and>
   (\<exists>q''. uq_push hash_u32 uq_demo_2 5 = Inr (True, q'') \<and> uq_nodes q'' = [5])"
proof -
  have i: "uq_inv uq_demo_1"
    by (simp add: uq_inv_def uq_demo_1_def map_inv_def set_elems_def map_keys_def map_items_def
        map_filter_simps)
  have p: "uq_pop hash_u32 uq_demo_1 = Inr (5, uq_demo_2)" by code_simp
  have n1: "uq_nodes uq_demo_1 = [5]" and n2: "uq_nodes uq_demo_2 = []"
    by (simp_all add: uq_demo_1_def uq_demo_2_def)
  show ?thesis
    using uq_push_false_iff_queued [OF i, of 5 hash_u32] uq_push_false_iff_queued [OF i, of 7 hash_u32] p i
    by (simp add: n1 n2)
qed

lemma set_elems_empty [simp]: "set_elems map_empty = {}"
  by (simp add: set_elems_def map_keys_def map_items_def map_empty_def)

lemma map_lookup_empty [simp]: "map_lookup map_empty = Map.empty"
  by (simp add: map_lookup_def map_items_def map_empty_def)

lemma nfa_edges_valid: "store_wf sts \<Longrightarrow> (p, c, t) \<in> nfa_edges sts \<Longrightarrow> p < length sts \<and> t < length sts"
  by (fastforce simp: store_wf_def nfa_edges_def nfa_delta_def split: option.splits)

lemma NfaState_AddTransition_ok:
  assumes wf: "store_wf sts" and p: "p < length sts" and t: "t < length sts"
  obtains sts' where "NfaState_AddTransition sts p c t = Inr sts'" "length sts' = length sts"
    "store_wf sts'" "nfa_edges sts' = insert (p, c, t) (nfa_edges sts)"
    "nfa_ends sts' = nfa_ends sts - {p}" "map st_id sts' = map st_id sts"
proof -
  let ?m = "nfa_transitions (sts ! p)"
  have mi: "map_inv ?m" using wf p by (simp add: store_wf_def)
  from map_at_ok [OF mi, of hash_char map_empty c]
  obtain m1 pos tg where a: "map_at hash_char map_empty ?m c = Inr (m1, pos, tg)" "map_inv m1"
    "pos < map_cap m1" "map_b m1 ! pos = Some (c, tg)"
    "tg = (case map_lookup ?m c of None \<Rightarrow> map_empty | Some w \<Rightarrow> w)"
    "map_lookup m1 = (map_lookup ?m)(c \<mapsto> tg)" by metis
  have tgi: "map_inv tg" using a(5) wf p by (auto simp: store_wf_def map_inv_empty split: option.splits)
  have tge: "set_elems tg = nfa_delta sts p c"
    using a(5) by (auto simp: nfa_delta_def split: option.splits)
  from set_add_ok [OF tgi, of "hash_nfa sts" t]
  obtain tg' where s: "set_add (hash_nfa sts) tg t = Inr tg'" "map_inv tg'"
    "set_elems tg' = insert t (set_elems tg)" by metis
  let ?m2 = "map_store m1 pos tg'"
  let ?st = "(sts ! p)\<lparr>st_is_end := False, nfa_transitions := ?m2\<rparr>"
  let ?sts' = "sts[p := ?st]"
  have m2i: "map_inv ?m2" by (rule map_store_ok(1) [OF a(2,3,4)])
  have m2l: "map_lookup ?m2 = (map_lookup ?m)(c \<mapsto> tg')"
    using map_store_ok(2) [OF a(2,3,4), of tg'] a(6) by simp
  have 1: "NfaState_AddTransition sts p c t = Inr ?sts'"
    using a(1) s(1) by (simp add: NfaState_AddTransition_def)
  have 2: "length ?sts' = length sts" by simp
  have d: "\<And>q c'. q < length sts \<Longrightarrow>
      nfa_delta ?sts' q c' = (if q = p \<and> c' = c then insert t (nfa_delta sts q c') else nfa_delta sts q c')"
    using p m2l s(3) tge by (auto simp: nfa_delta_def nth_list_update split: option.splits)
  have 4: "nfa_edges ?sts' = insert (p, c, t) (nfa_edges sts)"
    using p d by (auto simp: nfa_edges_def split: if_splits)
  have 5: "nfa_ends ?sts' = nfa_ends sts - {p}"
    using p by (auto simp: nfa_ends_def nth_list_update)
  have 6: "map st_id ?sts' = map st_id sts"
    using p by (auto simp: list_eq_iff_nth_eq nth_list_update)
  have 3: "store_wf ?sts'"
    unfolding store_wf_def
  proof (intro conjI allI impI)
    fix q assume q: "q < length ?sts'"
    show "map_inv (nfa_transitions (?sts' ! q))"
    proof (cases "q = p")
      case True
      then show ?thesis using p m2i by simp
    next
      case False
      then show ?thesis using q wf by (simp add: store_wf_def)
    qed
  next
    fix q c' tg0 assume q: "q < length ?sts'"
      and l: "map_lookup (nfa_transitions (?sts' ! q)) c' = Some tg0"
    have old: "\<And>c' tg0. map_lookup (nfa_transitions (sts ! q)) c' = Some tg0 \<Longrightarrow>
       map_inv tg0 \<and> set_elems tg0 \<noteq> {} \<and> set_elems tg0 \<subseteq> {..<length sts}"
      using wf q by (simp add: store_wf_def)
    have "map_inv tg0 \<and> set_elems tg0 \<noteq> {} \<and> set_elems tg0 \<subseteq> {..<length sts}"
    proof (cases "q = p \<and> c' = c")
      case True
      then have "tg0 = tg'" using l p m2l by simp
      moreover have "set_elems tg \<subseteq> {..<length sts}"
        using tge wf p by (auto simp: nfa_delta_def store_wf_def split: option.splits)
      ultimately show ?thesis using s t by auto
    next
      case False
      then have "map_lookup (nfa_transitions (sts ! q)) c' = Some tg0"
        using l p m2l by (auto simp: nth_list_update split: if_splits)
      then show ?thesis by (rule old)
    qed
    then show "map_inv tg0" "set_elems tg0 \<noteq> {}" "set_elems tg0 \<subseteq> {..<length ?sts'}" by simp_all
  next
    fix q c' t' assume "(q, c', t') \<in> nfa_edges ?sts'"
    then have "(q, c', t') = (p, c, t) \<or> (q, c', t') \<in> nfa_edges sts" using 4 by simp
    moreover have "(q, c', t') \<in> nfa_edges sts \<Longrightarrow> q \<notin> nfa_ends sts"
      using wf unfolding store_wf_def by blast
    ultimately show "q \<notin> nfa_ends ?sts'"
      unfolding 5 by blast
  qed
  show thesis by (rule that [OF 1 2 3 4 5 6])
qed

lemma nfa_ends_lt: "p \<in> nfa_ends sts \<Longrightarrow> p < length sts"
  by (simp add: nfa_ends_def)

lemma nfa_step_mono: "nfa_edges sts \<subseteq> nfa_edges sts' \<Longrightarrow> (nfa_step sts)\<^sup>* \<subseteq> (nfa_step sts')\<^sup>*"
  by (rule rtrancl_mono) (auto simp: nfa_step_def)

lemma stack_inv_extend:
  assumes old: "stack_inv sts (used @ stk)"
    and wf: "store_wf sts'" and len: "length sts \<le> length sts'"
    and edges: "nfa_edges sts \<subseteq> nfa_edges sts'"
    and ends: "nfa_ends sts - nfa_end ` set used \<subseteq> nfa_ends sts'"
    and f: "frag_ok sts' f" and fresh: "nfa_end f \<notin> nfa_end ` set stk"
    and link: "\<forall>u \<in> set used. (nfa_end u, nfa_end f) \<in> (nfa_step sts')\<^sup>*"
    and new: "\<forall>p. length sts \<le> p \<and> p < length sts' \<longrightarrow> (\<exists>g \<in> set (f # stk). (p, nfa_end g) \<in> (nfa_step sts')\<^sup>*)"
  shows "stack_inv sts' (f # stk)"
proof -
  have mono: "(nfa_step sts)\<^sup>* \<subseteq> (nfa_step sts')\<^sup>*" by (rule nfa_step_mono [OF edges])
  have d: "distinct (map nfa_end (used @ stk))" using old by (simp add: stack_inv_def)
  have frs: "\<forall>g \<in> set stk. frag_ok sts' g"
  proof
    fix g assume g: "g \<in> set stk"
    then have o: "frag_ok sts g" using old by (simp add: stack_inv_def)
    have "nfa_end g \<notin> nfa_end ` set used" using d g by auto
    then have "nfa_end g \<in> nfa_ends sts'" using o ends by (auto simp: frag_ok_def)
    then show "frag_ok sts' g" using o mono len by (auto simp: frag_ok_def)
  qed
  have co: "\<forall>p < length sts'. \<exists>g \<in> set (f # stk). (p, nfa_end g) \<in> (nfa_step sts')\<^sup>*"
  proof (intro allI impI)
    fix p assume p: "p < length sts'"
    show "\<exists>g \<in> set (f # stk). (p, nfa_end g) \<in> (nfa_step sts')\<^sup>*"
    proof (cases "p < length sts")
      case True
      then obtain g where g: "g \<in> set (used @ stk)" "(p, nfa_end g) \<in> (nfa_step sts)\<^sup>*"
        using old unfolding stack_inv_def by blast
      then have r: "(p, nfa_end g) \<in> (nfa_step sts')\<^sup>*" using mono by blast
      show ?thesis
      proof (cases "g \<in> set used")
        case True
        then have "(nfa_end g, nfa_end f) \<in> (nfa_step sts')\<^sup>*" using link by blast
        then have "(p, nfa_end f) \<in> (nfa_step sts')\<^sup>*" using r by (rule rtrancl_trans [rotated])
        then show ?thesis by simp
      next
        case False
        then have "g \<in> set stk" using g by simp
        then show ?thesis using r by auto
      qed
    next
      case False
      then show ?thesis using new p by simp
    qed
  qed
  show ?thesis
    unfolding stack_inv_def using wf frs f d fresh co by auto
qed

text \<open>The effect of \<^verbatim>\<open>NewState\<close> and of \<^verbatim>\<open>AddTransition\<close> on the store of the parser.\<close>

lemma nfa_delta_append: "p < length sts \<Longrightarrow> nfa_delta (sts @ xs) p c = nfa_delta sts p c"
  by (simp add: nfa_delta_def nth_append)

lemma NewState_ok:
  assumes "store_wf (states P)"
  shows "fst (NewState flag P) = P\<lparr>states := states (fst (NewState flag P))\<rparr>"
    "snd (NewState flag P) = length (states P)"
    "length (states (fst (NewState flag P))) = length (states P) + 1"
    "store_wf (states (fst (NewState flag P)))"
    "nfa_edges (states (fst (NewState flag P))) = nfa_edges (states P)"
    "nfa_ends (states (fst (NewState flag P))) = (if flag then insert (length (states P)) (nfa_ends (states P)) else nfa_ends (states P))"
proof -
  let ?new = "\<lparr>st_id = of_nat (length (states P) + 1), st_is_end = flag, nfa_transitions = map_empty\<rparr>"
  let ?sts' = "states P @ [?new]"
  have e: "fst (NewState flag P) = P\<lparr>states := ?sts'\<rparr>" by (simp add: NewState_def)
  show "fst (NewState flag P) = P\<lparr>states := states (fst (NewState flag P))\<rparr>" by (simp add: NewState_def)
  show "snd (NewState flag P) = length (states P)" by (simp add: NewState_def)
  show "length (states (fst (NewState flag P))) = length (states P) + 1" by (simp add: e)
  have dn: "\<And>c. nfa_delta ?sts' (length (states P)) c = {}"
    by (simp add: nfa_delta_def)
  show ed: "nfa_edges (states (fst (NewState flag P))) = nfa_edges (states P)"
    unfolding e using dn by (auto simp: nfa_edges_def nfa_delta_append less_Suc_eq)
  show en: "nfa_ends (states (fst (NewState flag P))) = (if flag then insert (length (states P)) (nfa_ends (states P)) else nfa_ends (states P))"
    unfolding e by (auto simp: nfa_ends_def nth_append less_Suc_eq)
  have old: "\<And>p c t. (p, c, t) \<in> nfa_edges (states P) \<Longrightarrow> p \<notin> nfa_ends (states P) \<and> p < length (states P)"
    using assms unfolding store_wf_def nfa_edges_def by blast
  show "store_wf (states (fst (NewState flag P)))"
    unfolding store_wf_def
  proof (intro conjI allI impI)
    fix p assume "p < length (states (fst (NewState flag P)))"
    then show "map_inv (nfa_transitions (states (fst (NewState flag P)) ! p))"
      using assms by (auto simp: e nth_append less_Suc_eq store_wf_def map_inv_empty)
  next
    fix p c tg assume p: "p < length (states (fst (NewState flag P)))"
      and l: "map_lookup (nfa_transitions (states (fst (NewState flag P)) ! p)) c = Some tg"
    have pl: "p < length (states P)" using p l by (cases "p = length (states P)") (auto simp: e)
    then have "map_lookup (nfa_transitions (states P ! p)) c = Some tg" using l by (simp add: e nth_append)
    then have "map_inv tg \<and> set_elems tg \<noteq> {} \<and> set_elems tg \<subseteq> {..<length (states P)}"
      using assms pl unfolding store_wf_def by blast
    then show "map_inv tg" "set_elems tg \<noteq> {}" "set_elems tg \<subseteq> {..<length (states (fst (NewState flag P)))}"
      by (auto simp: e)
  next
    fix p c t assume "(p, c, t) \<in> nfa_edges (states (fst (NewState flag P)))"
    then have "(p, c, t) \<in> nfa_edges (states P)" using ed by simp
    then show "p \<notin> nfa_ends (states (fst (NewState flag P)))" using old en by auto
  qed
qed

lemma AddTransition_ok:
  assumes wf: "store_wf (states P)" and p: "p < length (states P)" and t: "t < length (states P)"
  obtains P' where "AddTransition p c t P = Inr P'" "P' = P\<lparr>states := states P'\<rparr>"
    "length (states P') = length (states P)" "store_wf (states P')"
    "nfa_edges (states P') = insert (p, c, t) (nfa_edges (states P))"
    "nfa_ends (states P') = nfa_ends (states P) - {p}"
proof -
  from NfaState_AddTransition_ok [OF wf p t, of c]
  obtain sts' where s: "NfaState_AddTransition (states P) p c t = Inr sts'" "length sts' = length (states P)"
    "store_wf sts'" "nfa_edges sts' = insert (p, c, t) (nfa_edges (states P))"
    "nfa_ends sts' = nfa_ends (states P) - {p}" by metis
  show thesis
    by (rule that [of "P\<lparr>states := sts'\<rparr>"]) (use s in \<open>simp_all add: AddTransition_def\<close>)
qed

lemma rtrancl_step1: "(p, c, t) \<in> nfa_edges sts \<Longrightarrow> (p, t) \<in> (nfa_step sts)\<^sup>*"
  by (auto simp: nfa_step_def)

lemma rtrancl_step2:
  "(p, c, t) \<in> nfa_edges sts \<Longrightarrow> (t, c', u) \<in> nfa_edges sts \<Longrightarrow> (p, u) \<in> (nfa_step sts)\<^sup>*"
  by (meson rtrancl_step1 rtrancl_trans)

lemma NewNfaFromSymbol_ok:
  assumes inv: "stack_inv (states P) (nfa_stack P)"
  obtains P' f where "NewNfaFromSymbol c P = Inr (P', f)" "nfa_stack P' = nfa_stack P"
    "op_stack P' = op_stack P" "stack_inv (states P') (f # nfa_stack P)"
proof -
  let ?n = "length (states P)"
  have wf: "store_wf (states P)" using inv by (simp add: stack_inv_def)
  define P1 where "P1 = fst (NewState False P)"
  define P2 where "P2 = fst (NewState True P1)"
  note n1 = NewState_ok [OF wf, of False, folded P1_def]
  note n2 = NewState_ok [OF n1(4), of True, folded P2_def]
  from AddTransition_ok [OF n2(4), of ?n "Suc ?n" c]
  obtain P3 where a: "AddTransition ?n c (Suc ?n) P2 = Inr P3" "P3 = P2\<lparr>states := states P3\<rparr>"
    "length (states P3) = length (states P2)" "store_wf (states P3)"
    "nfa_edges (states P3) = insert (?n, c, Suc ?n) (nfa_edges (states P2))"
    "nfa_ends (states P3) = nfa_ends (states P2) - {?n}"
    using n1(3) n2(3) by (metis Suc_eq_plus1 lessI less_SucI)
  let ?f = "\<lparr>nfa_start = ?n, nfa_end = Suc ?n, nfa_size = 2\<rparr>"
  have len: "length (states P3) = ?n + 2" using a(3) n1(3) n2(3) by simp
  have ed: "nfa_edges (states P3) = insert (?n, c, Suc ?n) (nfa_edges (states P))"
    using a(5) n1(5) n2(5) by simp
  have en: "nfa_ends (states P3) = insert (Suc ?n) (nfa_ends (states P))"
    using a(6) n1(6) n2(6) n1(3) nfa_ends_lt [of ?n "states P"] by auto
  have 1: "NewNfaFromSymbol c P = Inr (P3, ?f)"
    using a(1) n1(2) n2(2) n1(3)
    by (simp add: NewNfaFromSymbol_def P1_def P2_def split_beta Let_def bind_e_def)
  have st: "nfa_stack P3 = nfa_stack P" "op_stack P3 = op_stack P"
    using a(2) n1(1) n2(1)
    by (metis NfaParser.select_convs(1) NfaParser.surjective NfaParser.update_convs(3),
        metis NfaParser.select_convs(2) NfaParser.surjective NfaParser.update_convs(3))
  have fresh: "Suc ?n \<notin> nfa_end ` set (nfa_stack P)"
    using inv by (auto simp: stack_inv_def frag_ok_def dest!: nfa_ends_lt)
  have "stack_inv (states P3) (?f # nfa_stack P)"
  proof (rule stack_inv_extend [where used = "[]" and sts = "states P"])
    show "stack_inv (states P) ([] @ nfa_stack P)" using inv by simp
    show "store_wf (states P3)" by (rule a(4))
    show "length (states P) \<le> length (states P3)" using len by simp
    show "nfa_edges (states P) \<subseteq> nfa_edges (states P3)" using ed by auto
    show "nfa_ends (states P) - nfa_end ` set [] \<subseteq> nfa_ends (states P3)" using en by auto
    show "frag_ok (states P3) ?f"
      using len en ed by (auto simp: frag_ok_def intro: rtrancl_step1)
    show "nfa_end ?f \<notin> nfa_end ` set (nfa_stack P)" using fresh by simp
    show "\<forall>u \<in> set []. (nfa_end u, nfa_end ?f) \<in> (nfa_step (states P3))\<^sup>*" by simp
    show "\<forall>p. ?n \<le> p \<and> p < length (states P3) \<longrightarrow>
          (\<exists>g \<in> set (?f # nfa_stack P). (p, nfa_end g) \<in> (nfa_step (states P3))\<^sup>*)"
    proof (intro allI impI)
      fix p assume "?n \<le> p \<and> p < length (states P3)"
      then have "p = ?n \<or> p = Suc ?n" using len by auto
      then have "(p, Suc ?n) \<in> (nfa_step (states P3))\<^sup>*"
        using ed by (auto intro: rtrancl_step1)
      then show "\<exists>g \<in> set (?f # nfa_stack P). (p, nfa_end g) \<in> (nfa_step (states P3))\<^sup>*" by simp
    qed
  qed
  then show thesis using that 1 st by blast
qed

lemma NewState2:
  assumes wf: "store_wf (states P)"
  obtains P1 P2 where "NewState False P = (P1, length (states P))"
    "NewState True P1 = (P2, Suc (length (states P)))"
    "nfa_stack P2 = nfa_stack P" "op_stack P2 = op_stack P" "store_wf (states P2)"
    "length (states P2) = length (states P) + 2"
    "nfa_edges (states P2) = nfa_edges (states P)"
    "nfa_ends (states P2) = insert (Suc (length (states P))) (nfa_ends (states P))"
proof -
  let ?n = "length (states P)"
  define P1 where "P1 = fst (NewState False P)"
  define P2 where "P2 = fst (NewState True P1)"
  note n1 = NewState_ok [OF wf, of False, folded P1_def]
  note n2 = NewState_ok [OF n1(4), of True, folded P2_def]
  have 1: "NewState False P = (P1, ?n)" using n1(2) by (simp add: P1_def prod_eq_iff)
  have 2: "NewState True P1 = (P2, Suc ?n)" using n2(2) n1(3) by (simp add: P2_def prod_eq_iff)
  have 3: "nfa_stack P2 = nfa_stack P" "op_stack P2 = op_stack P"
    by (simp_all add: P2_def P1_def NewState_def)
  have 6: "length (states P2) = ?n + 2" using n1(3) n2(3) by simp
  have 7: "nfa_edges (states P2) = nfa_edges (states P)" using n1(5) n2(5) by simp
  have 8: "nfa_ends (states P2) = insert (Suc ?n) (nfa_ends (states P))"
    using n1(6) n2(6) n1(3) by simp
  show thesis by (rule that [OF 1 2 3 n2(4) 6 7 8])
qed

lemma AddTransition_ok2:
  assumes wf: "store_wf (states P)" and p: "p < length (states P)" and t: "t < length (states P)"
  obtains P' where "AddTransition p c t P = Inr P'"
    "nfa_stack P' = nfa_stack P" "op_stack P' = op_stack P"
    "length (states P') = length (states P)" "store_wf (states P')"
    "nfa_edges (states P') = insert (p, c, t) (nfa_edges (states P))"
    "nfa_ends (states P') = nfa_ends (states P) - {p}"
proof -
  from NfaState_AddTransition_ok [OF wf p t, of c]
  obtain sts' where s: "NfaState_AddTransition (states P) p c t = Inr sts'" "length sts' = length (states P)"
    "store_wf sts'" "nfa_edges sts' = insert (p, c, t) (nfa_edges (states P))"
    "nfa_ends sts' = nfa_ends (states P) - {p}" by metis
  show thesis
    by (rule that [of "P\<lparr>states := sts'\<rparr>"]) (use s in \<open>simp_all add: AddTransition_def\<close>)
qed

text \<open>The raw effect of each construction on a well-formed store.\<close>

lemma NewNfaFromConcat_raw:
  assumes wf: "store_wf (states P)" and a: "nfa_end a < length (states P)"
    and b: "nfa_start b < length (states P)"
  obtains P' where "NewNfaFromConcat a b P = Inr (P', \<lparr>nfa_start = nfa_start a, nfa_end = nfa_end b,
        nfa_size = nfa_size a + nfa_size b\<rparr>)"
    "nfa_stack P' = nfa_stack P" "op_stack P' = op_stack P"
    "length (states P') = length (states P)" "store_wf (states P')"
    "nfa_edges (states P') = insert (nfa_end a, EPSILON, nfa_start b) (nfa_edges (states P))"
    "nfa_ends (states P') = nfa_ends (states P) - {nfa_end a}"
proof -
  from AddTransition_ok2 [OF wf a b, of EPSILON]
  obtain P1 where 1: "AddTransition (nfa_end a) EPSILON (nfa_start b) P = Inr P1"
    "nfa_stack P1 = nfa_stack P" "op_stack P1 = op_stack P"
    "length (states P1) = length (states P)" "store_wf (states P1)"
    "nfa_edges (states P1) = insert (nfa_end a, EPSILON, nfa_start b) (nfa_edges (states P))"
    "nfa_ends (states P1) = nfa_ends (states P) - {nfa_end a}" by metis
  show thesis
    by (rule that [of P1]) (use 1 in \<open>simp_all add: NewNfaFromConcat_def bind_e_def\<close>)
qed

lemma NewNfaFromUnion_raw:
  assumes wf: "store_wf (states P)"
    and a: "nfa_start a < length (states P)" "nfa_end a < length (states P)"
    and b: "nfa_start b < length (states P)" "nfa_end b < length (states P)"
  obtains P' where "NewNfaFromUnion a b P = Inr (P', \<lparr>nfa_start = length (states P),
        nfa_end = Suc (length (states P)), nfa_size = nfa_size a + nfa_size b + 2\<rparr>)"
    "nfa_stack P' = nfa_stack P" "op_stack P' = op_stack P"
    "length (states P') = length (states P) + 2" "store_wf (states P')"
    "nfa_edges (states P') = nfa_edges (states P) \<union>
       {(length (states P), EPSILON, nfa_start a), (length (states P), EPSILON, nfa_start b),
        (nfa_end a, EPSILON, Suc (length (states P))), (nfa_end b, EPSILON, Suc (length (states P)))}"
    "nfa_ends (states P') = insert (Suc (length (states P))) (nfa_ends (states P)) - {nfa_end a, nfa_end b}"
proof -
  let ?n = "length (states P)"
  from NewState2 [OF wf]
  obtain P1 P2 where n: "NewState False P = (P1, ?n)" "NewState True P1 = (P2, Suc ?n)"
    "nfa_stack P2 = nfa_stack P" "op_stack P2 = op_stack P" "store_wf (states P2)"
    "length (states P2) = ?n + 2" "nfa_edges (states P2) = nfa_edges (states P)"
    "nfa_ends (states P2) = insert (Suc ?n) (nfa_ends (states P))" by metis
  have l2: "?n < length (states P2)" "Suc ?n < length (states P2)"
    "nfa_start a < length (states P2)" "nfa_end a < length (states P2)"
    "nfa_start b < length (states P2)" "nfa_end b < length (states P2)"
    using n(6) a b by simp_all
  from AddTransition_ok2 [OF n(5) l2(1) l2(3), of EPSILON]
  obtain P3 where 3: "AddTransition ?n EPSILON (nfa_start a) P2 = Inr P3"
    "nfa_stack P3 = nfa_stack P2" "op_stack P3 = op_stack P2"
    "length (states P3) = length (states P2)" "store_wf (states P3)"
    "nfa_edges (states P3) = insert (?n, EPSILON, nfa_start a) (nfa_edges (states P2))"
    "nfa_ends (states P3) = nfa_ends (states P2) - {?n}" by metis
  have l3: "?n < length (states P3)" "nfa_start b < length (states P3)" using l2 3(4) by simp_all
  from AddTransition_ok2 [OF 3(5) l3, of EPSILON]
  obtain P4 where 4: "AddTransition ?n EPSILON (nfa_start b) P3 = Inr P4"
    "nfa_stack P4 = nfa_stack P3" "op_stack P4 = op_stack P3"
    "length (states P4) = length (states P3)" "store_wf (states P4)"
    "nfa_edges (states P4) = insert (?n, EPSILON, nfa_start b) (nfa_edges (states P3))"
    "nfa_ends (states P4) = nfa_ends (states P3) - {?n}" by metis
  have l4: "nfa_end a < length (states P4)" "Suc ?n < length (states P4)" using l2 3(4) 4(4) by simp_all
  from AddTransition_ok2 [OF 4(5) l4, of EPSILON]
  obtain P5 where 5: "AddTransition (nfa_end a) EPSILON (Suc ?n) P4 = Inr P5"
    "nfa_stack P5 = nfa_stack P4" "op_stack P5 = op_stack P4"
    "length (states P5) = length (states P4)" "store_wf (states P5)"
    "nfa_edges (states P5) = insert (nfa_end a, EPSILON, Suc ?n) (nfa_edges (states P4))"
    "nfa_ends (states P5) = nfa_ends (states P4) - {nfa_end a}" by metis
  have l5: "nfa_end b < length (states P5)" "Suc ?n < length (states P5)"
    using l2 3(4) 4(4) 5(4) by simp_all
  from AddTransition_ok2 [OF 5(5) l5, of EPSILON]
  obtain P6 where 6: "AddTransition (nfa_end b) EPSILON (Suc ?n) P5 = Inr P6"
    "nfa_stack P6 = nfa_stack P5" "op_stack P6 = op_stack P5"
    "length (states P6) = length (states P5)" "store_wf (states P6)"
    "nfa_edges (states P6) = insert (nfa_end b, EPSILON, Suc ?n) (nfa_edges (states P5))"
    "nfa_ends (states P6) = nfa_ends (states P5) - {nfa_end b}" by metis
  have nn: "?n \<notin> nfa_ends (states P)" using nfa_ends_lt [of ?n "states P"] by auto
  show thesis
  proof (rule that [of P6])
    show "NewNfaFromUnion a b P = Inr (P6, \<lparr>nfa_start = ?n, nfa_end = Suc ?n, nfa_size = nfa_size a + nfa_size b + 2\<rparr>)"
      using n(1,2) 3(1) 4(1) 5(1) 6(1) by (simp add: NewNfaFromUnion_def bind_e_def)
    show "nfa_stack P6 = nfa_stack P" using n(3) 3(2) 4(2) 5(2) 6(2) by simp
    show "op_stack P6 = op_stack P" using n(4) 3(3) 4(3) 5(3) 6(3) by simp
    show "length (states P6) = ?n + 2" using n(6) 3(4) 4(4) 5(4) 6(4) by simp
    show "store_wf (states P6)" by (rule 6(5))
    show "nfa_edges (states P6) = nfa_edges (states P) \<union>
       {(?n, EPSILON, nfa_start a), (?n, EPSILON, nfa_start b),
        (nfa_end a, EPSILON, Suc ?n), (nfa_end b, EPSILON, Suc ?n)}"
      unfolding 6(6) 5(6) 4(6) 3(6) n(7) by blast
    show "nfa_ends (states P6) = insert (Suc ?n) (nfa_ends (states P)) - {nfa_end a, nfa_end b}"
      unfolding 6(7) 5(7) 4(7) 3(7) n(8) using nn by auto
  qed
qed

lemma add_all_Nil [simp]: "add_all [] P = Inr P"
  by (simp add: add_all_def)

lemma bind_e_Inr [simp]: "bind_e (Inr x) f = f x"
  by (simp add: bind_e_def)

lemma bind_e_Inl [simp]: "bind_e (Inl e) f = Inl e"
  by (simp add: bind_e_def)

lemma bind_e_assoc: "bind_e (bind_e x f) g = bind_e x (\<lambda>a. bind_e (f a) g)"
  by (cases x) simp_all

lemma add_all_Cons [simp]: "add_all ((p, c, t) # es) P = bind_e (AddTransition p c t P) (add_all es)"
  unfolding add_all_def bind_e_def by simp

lemma bind_e_add_all_Nil [simp]: "bind_e x (add_all []) = x"
  by (cases x) simp_all

lemma add_all_ok:
  assumes "store_wf (states P)" "\<forall>(p, c, t) \<in> set es. p < length (states P) \<and> t < length (states P)"
  obtains P' where "add_all es P = Inr P'"
    "nfa_stack P' = nfa_stack P" "op_stack P' = op_stack P"
    "length (states P') = length (states P)" "store_wf (states P')"
    "nfa_edges (states P') = nfa_edges (states P) \<union> set es"
    "nfa_ends (states P') = nfa_ends (states P) - fst ` set es"
  using assms
proof (induction es arbitrary: P thesis)
  case Nil
  show ?case by (rule Nil(1) [of P]) (use Nil in simp_all)
next
  case (Cons e es)
  obtain p c t where e: "e = (p, c, t)" by (cases e)
  have pt: "p < length (states P)" "t < length (states P)" using Cons.prems(3) e by auto
  from AddTransition_ok2 [OF Cons.prems(2) pt, of c]
  obtain P1 where 1: "AddTransition p c t P = Inr P1"
    "nfa_stack P1 = nfa_stack P" "op_stack P1 = op_stack P"
    "length (states P1) = length (states P)" "store_wf (states P1)"
    "nfa_edges (states P1) = insert (p, c, t) (nfa_edges (states P))"
    "nfa_ends (states P1) = nfa_ends (states P) - {p}" by metis
  have "\<forall>(p, c, t) \<in> set es. p < length (states P1) \<and> t < length (states P1)"
    using Cons.prems(3) 1(4) by auto
  from Cons.IH [OF _ 1(5) this]
  obtain P' where 2: "add_all es P1 = Inr P'"
    "nfa_stack P' = nfa_stack P1" "op_stack P' = op_stack P1"
    "length (states P') = length (states P1)" "store_wf (states P')"
    "nfa_edges (states P') = nfa_edges (states P1) \<union> set es"
    "nfa_ends (states P') = nfa_ends (states P1) - fst ` set es" by metis
  show ?case
  proof (rule Cons.prems(1) [of P'])
    show "add_all (e # es) P = Inr P'" using 1(1) 2(1) e by (simp add: bind_e_def)
    show "nfa_stack P' = nfa_stack P" "op_stack P' = op_stack P"
      "length (states P') = length (states P)" using 1 2 by simp_all
    show "store_wf (states P')" by (rule 2(5))
    show "nfa_edges (states P') = nfa_edges (states P) \<union> set (e # es)"
      unfolding 2(6) 1(6) e by auto
    show "nfa_ends (states P') = nfa_ends (states P) - fst ` set (e # es)"
      unfolding 2(7) 1(7) e by auto
  qed
qed

text \<open>Two fresh states and a list of edges: the shape of the other constructions.\<close>

lemma alloc_add_ok:
  assumes wf: "store_wf (states P)"
    and es: "\<forall>(p, c, t) \<in> set es. p < length (states P) + 2 \<and> t < length (states P) + 2"
  obtains P1 P2 P' where "NewState False P = (P1, length (states P))"
    "NewState True P1 = (P2, Suc (length (states P)))"
    "add_all es P2 = Inr P'"
    "nfa_stack P' = nfa_stack P" "op_stack P' = op_stack P"
    "length (states P') = length (states P) + 2" "store_wf (states P')"
    "nfa_edges (states P') = nfa_edges (states P) \<union> set es"
    "nfa_ends (states P') = insert (Suc (length (states P))) (nfa_ends (states P)) - fst ` set es"
proof -
  let ?n = "length (states P)"
  from NewState2 [OF wf]
  obtain P1 P2 where n: "NewState False P = (P1, ?n)" "NewState True P1 = (P2, Suc ?n)"
    "nfa_stack P2 = nfa_stack P" "op_stack P2 = op_stack P" "store_wf (states P2)"
    "length (states P2) = ?n + 2" "nfa_edges (states P2) = nfa_edges (states P)"
    "nfa_ends (states P2) = insert (Suc ?n) (nfa_ends (states P))" by metis
  have "\<forall>(p, c, t) \<in> set es. p < length (states P2) \<and> t < length (states P2)"
    using es n(6) by simp
  from add_all_ok [OF n(5) this]
  obtain P' where a: "add_all es P2 = Inr P'"
    "nfa_stack P' = nfa_stack P2" "op_stack P' = op_stack P2"
    "length (states P') = length (states P2)" "store_wf (states P')"
    "nfa_edges (states P') = nfa_edges (states P2) \<union> set es"
    "nfa_ends (states P') = nfa_ends (states P2) - fst ` set es" by metis
  show thesis
    by (rule that [OF n(1,2) a(1)]) (use n a in simp_all)
qed

lemma NewNfaFromClosure_raw:
  assumes wf: "store_wf (states P)"
    and a: "nfa_start a < length (states P)" "nfa_end a < length (states P)"
  obtains P' where "NewNfaFromClosure a P = Inr (P', \<lparr>nfa_start = length (states P),
        nfa_end = Suc (length (states P)), nfa_size = nfa_size a + 2\<rparr>)"
    "nfa_stack P' = nfa_stack P" "op_stack P' = op_stack P"
    "length (states P') = length (states P) + 2" "store_wf (states P')"
    "nfa_edges (states P') = nfa_edges (states P) \<union>
       {(nfa_end a, EPSILON, nfa_start a), (length (states P), EPSILON, nfa_start a),
        (nfa_end a, EPSILON, Suc (length (states P))), (length (states P), EPSILON, Suc (length (states P)))}"
    "nfa_ends (states P') = insert (Suc (length (states P))) (nfa_ends (states P)) - {nfa_end a}"
proof -
  let ?n = "length (states P)"
  let ?es = "[(nfa_end a, EPSILON, nfa_start a), (?n, EPSILON, nfa_start a),
        (nfa_end a, EPSILON, Suc ?n), (?n, EPSILON, Suc ?n)]"
  have "\<forall>(p, c, t) \<in> set ?es. p < ?n + 2 \<and> t < ?n + 2" using a by simp
  from alloc_add_ok [OF wf this]
  obtain P1 P2 P' where r: "NewState False P = (P1, ?n)" "NewState True P1 = (P2, Suc ?n)"
    "add_all ?es P2 = Inr P'"
    "nfa_stack P' = nfa_stack P" "op_stack P' = op_stack P"
    "length (states P') = ?n + 2" "store_wf (states P')"
    "nfa_edges (states P') = nfa_edges (states P) \<union> set ?es"
    "nfa_ends (states P') = insert (Suc ?n) (nfa_ends (states P)) - fst ` set ?es" by metis
  have nn: "?n \<notin> nfa_ends (states P)" using nfa_ends_lt [of ?n "states P"] by auto
  show thesis
  proof (rule that [of P'])
    show "NewNfaFromClosure a P = Inr (P', \<lparr>nfa_start = ?n, nfa_end = Suc ?n, nfa_size = nfa_size a + 2\<rparr>)"
    proof -
      have "NewNfaFromClosure a P = bind_e (add_all ?es P2)
          (\<lambda>P6. Inr (P6, \<lparr>nfa_start = ?n, nfa_end = Suc ?n, nfa_size = nfa_size a + 2\<rparr>))"
        using r(1,2) by (simp add: NewNfaFromClosure_def bind_e_assoc)
      then show ?thesis using r(3) by simp
    qed
    show "nfa_edges (states P') = nfa_edges (states P) \<union>
       {(nfa_end a, EPSILON, nfa_start a), (?n, EPSILON, nfa_start a),
        (nfa_end a, EPSILON, Suc ?n), (?n, EPSILON, Suc ?n)}"
      unfolding r(8) by auto
    show "nfa_ends (states P') = insert (Suc ?n) (nfa_ends (states P)) - {nfa_end a}"
      unfolding r(9) using nn by auto
  qed (use r in simp_all)
qed

lemma NewNfaFromOptional_raw:
  assumes wf: "store_wf (states P)"
    and a: "nfa_start a < length (states P)" "nfa_end a < length (states P)"
  obtains P' where "NewNfaFromOptional a P = Inr (P', \<lparr>nfa_start = length (states P),
        nfa_end = Suc (length (states P)), nfa_size = nfa_size a + 2\<rparr>)"
    "nfa_stack P' = nfa_stack P" "op_stack P' = op_stack P"
    "length (states P') = length (states P) + 2" "store_wf (states P')"
    "nfa_edges (states P') = nfa_edges (states P) \<union>
       {(length (states P), EPSILON, nfa_start a), (nfa_end a, EPSILON, Suc (length (states P))),
        (length (states P), EPSILON, Suc (length (states P)))}"
    "nfa_ends (states P') = insert (Suc (length (states P))) (nfa_ends (states P)) - {nfa_end a}"
proof -
  let ?n = "length (states P)"
  let ?es = "[(?n, EPSILON, nfa_start a), (nfa_end a, EPSILON, Suc ?n), (?n, EPSILON, Suc ?n)]"
  have "\<forall>(p, c, t) \<in> set ?es. p < ?n + 2 \<and> t < ?n + 2" using a by simp
  from alloc_add_ok [OF wf this]
  obtain P1 P2 P' where r: "NewState False P = (P1, ?n)" "NewState True P1 = (P2, Suc ?n)"
    "add_all ?es P2 = Inr P'"
    "nfa_stack P' = nfa_stack P" "op_stack P' = op_stack P"
    "length (states P') = ?n + 2" "store_wf (states P')"
    "nfa_edges (states P') = nfa_edges (states P) \<union> set ?es"
    "nfa_ends (states P') = insert (Suc ?n) (nfa_ends (states P)) - fst ` set ?es" by metis
  have nn: "?n \<notin> nfa_ends (states P)" using nfa_ends_lt [of ?n "states P"] by auto
  show thesis
  proof (rule that [of P'])
    show "NewNfaFromOptional a P = Inr (P', \<lparr>nfa_start = ?n, nfa_end = Suc ?n, nfa_size = nfa_size a + 2\<rparr>)"
    proof -
      have "NewNfaFromOptional a P = bind_e (add_all ?es P2)
          (\<lambda>P6. Inr (P6, \<lparr>nfa_start = ?n, nfa_end = Suc ?n, nfa_size = nfa_size a + 2\<rparr>))"
        using r(1,2) by (simp add: NewNfaFromOptional_def bind_e_assoc)
      then show ?thesis using r(3) by simp
    qed
    show "nfa_edges (states P') = nfa_edges (states P) \<union>
       {(?n, EPSILON, nfa_start a), (nfa_end a, EPSILON, Suc ?n), (?n, EPSILON, Suc ?n)}"
      unfolding r(8) by auto
    show "nfa_ends (states P') = insert (Suc ?n) (nfa_ends (states P)) - {nfa_end a}"
      unfolding r(9) using nn by auto
  qed (use r in simp_all)
qed

lemma fold_AddTransition_add_all:
  "fold_e (\<lambda>c. AddTransition s c e) cs P = add_all (map (\<lambda>c. (s, c, e)) cs) P"
  by (simp add: add_all_def) (induction cs arbitrary: P; simp split: sum.splits)

lemma NewNfaFromSymbols_raw:
  assumes wf: "store_wf (states P)" and ne: "map_n chs \<noteq> 0 \<longrightarrow> set_items chs \<noteq> []"
  obtains P' cs where "NewNfaFromSymbols chs P = Inr (P', \<lparr>nfa_start = length (states P),
        nfa_end = Suc (length (states P)), nfa_size = 2\<rparr>)"
    "nfa_stack P' = nfa_stack P" "op_stack P' = op_stack P"
    "length (states P') = length (states P) + 2" "store_wf (states P')"
    "cs \<noteq> []"
    "nfa_edges (states P') = nfa_edges (states P) \<union> (\<lambda>c. (length (states P), c, Suc (length (states P)))) ` set cs"
    "nfa_ends (states P') = insert (Suc (length (states P))) (nfa_ends (states P))"
proof -
  let ?n = "length (states P)"
  define cs where "cs = (if map_n chs \<noteq> 0 then set_items chs else [EPSILON])"
  let ?es = "map (\<lambda>c. (?n, c, Suc ?n)) cs"
  have cne: "cs \<noteq> []" using ne by (simp add: cs_def)
  have es: "\<forall>(p, c, t) \<in> set ?es. p < ?n + 2 \<and> t < ?n + 2" by auto
  have nn: "?n \<notin> nfa_ends (states P)" using nfa_ends_lt [of ?n "states P"] by auto
  have fe: "fst ` set ?es = {?n}" using cne by (cases cs) (auto simp: image_image)
  show thesis
  proof (rule alloc_add_ok [OF wf es])
    fix P1 P2 P'
    assume r: "NewState False P = (P1, ?n)" "NewState True P1 = (P2, Suc ?n)"
      "add_all ?es P2 = Inr P'"
      "nfa_stack P' = nfa_stack P" "op_stack P' = op_stack P"
      "length (states P') = ?n + 2" "store_wf (states P')"
      "nfa_edges (states P') = nfa_edges (states P) \<union> set ?es"
      "nfa_ends (states P') = insert (Suc ?n) (nfa_ends (states P)) - fst ` set ?es"
    show thesis
    proof (rule that [of P' cs])
      show "NewNfaFromSymbols chs P = Inr (P', \<lparr>nfa_start = ?n, nfa_end = Suc ?n, nfa_size = 2\<rparr>)"
      proof -
        have "(if map_n chs \<noteq> 0 then fold_e (\<lambda>c. AddTransition ?n c (Suc ?n)) (set_items chs) P2
                   else AddTransition ?n EPSILON (Suc ?n) P2) = add_all ?es P2"
          by (simp add: cs_def fold_AddTransition_add_all)
        then have "NewNfaFromSymbols chs P = bind_e (add_all ?es P2)
            (\<lambda>P6. Inr (P6, \<lparr>nfa_start = ?n, nfa_end = Suc ?n, nfa_size = 2\<rparr>))"
          using r(1,2) by (simp add: NewNfaFromSymbols_def)
        then show ?thesis using r(3) by simp
      qed
      show "nfa_edges (states P') = nfa_edges (states P) \<union> (\<lambda>c. (?n, c, Suc ?n)) ` set cs"
        unfolding r(8) by simp
      show "nfa_ends (states P') = insert (Suc ?n) (nfa_ends (states P))"
        unfolding r(9) fe using nn by auto
      show "cs \<noteq> []" by (rule cne)
    qed (use r in simp_all)
  qed
qed

lemma stack_inv_frag:
  assumes "stack_inv sts stk" "f \<in> set stk"
  shows "nfa_start f < length sts" "nfa_end f < length sts" "nfa_end f \<in> nfa_ends sts"
    "(nfa_start f, nfa_end f) \<in> (nfa_step sts)\<^sup>*"
  using assms by (auto simp: stack_inv_def frag_ok_def dest: nfa_ends_lt)

lemma stack_inv_wf: "stack_inv sts stk \<Longrightarrow> store_wf sts"
  by (simp add: stack_inv_def)

lemma stack_inv_ends_lt: "stack_inv sts stk \<Longrightarrow> x \<in> nfa_end ` set stk \<Longrightarrow> x < length sts"
  by (auto dest: stack_inv_frag(2))

lemma reach_mono: "(x, y) \<in> (nfa_step sts)\<^sup>* \<Longrightarrow> nfa_edges sts \<subseteq> nfa_edges sts' \<Longrightarrow> (x, y) \<in> (nfa_step sts')\<^sup>*"
  using nfa_step_mono by blast

lemma reach_edge: "(x, y) \<in> (nfa_step sts)\<^sup>* \<Longrightarrow> (y, c, z) \<in> nfa_edges sts \<Longrightarrow> (x, z) \<in> (nfa_step sts)\<^sup>*"
  by (meson rtrancl_step1 rtrancl_trans)

lemma edge_reach: "(x, c, y) \<in> nfa_edges sts \<Longrightarrow> (y, z) \<in> (nfa_step sts)\<^sup>* \<Longrightarrow> (x, z) \<in> (nfa_step sts)\<^sup>*"
  by (meson rtrancl_step1 rtrancl_trans)

lemma NewNfaFromConcat_inv:
  assumes inv: "stack_inv (states P) (b # a # stk)"
  obtains P' f where "NewNfaFromConcat a b P = Inr (P', f)" "nfa_stack P' = nfa_stack P"
    "op_stack P' = op_stack P" "stack_inv (states P') (f # stk)"
proof -
  let ?sts = "states P"
  note fa = stack_inv_frag [OF inv, of a, simplified]
  note fb = stack_inv_frag [OF inv, of b, simplified]
  have d: "nfa_end b \<noteq> nfa_end a" "nfa_end b \<notin> nfa_end ` set stk"
    using inv by (auto simp: stack_inv_def)
  let ?f = "\<lparr>nfa_start = nfa_start a, nfa_end = nfa_end b, nfa_size = nfa_size a + nfa_size b\<rparr>"
  show thesis
  proof (rule NewNfaFromConcat_raw [OF stack_inv_wf [OF inv] fa(2) fb(1)])
    fix P'
    assume r: "NewNfaFromConcat a b P = Inr (P', ?f)"
      "nfa_stack P' = nfa_stack P" "op_stack P' = op_stack P"
      "length (states P') = length ?sts" "store_wf (states P')"
      "nfa_edges (states P') = insert (nfa_end a, EPSILON, nfa_start b) (nfa_edges ?sts)"
      "nfa_ends (states P') = nfa_ends ?sts - {nfa_end a}"
    have sub: "nfa_edges ?sts \<subseteq> nfa_edges (states P')" using r(6) by auto
    have e: "(nfa_end a, EPSILON, nfa_start b) \<in> nfa_edges (states P')" using r(6) by simp
    have ab: "(nfa_end a, nfa_end b) \<in> (nfa_step (states P'))\<^sup>*"
      by (rule edge_reach [OF e reach_mono [OF fb(4) sub]])
    have "stack_inv (states P') (?f # stk)"
    proof (rule stack_inv_extend [where used = "[b, a]" and sts = ?sts])
      show "stack_inv ?sts ([b, a] @ stk)" using inv by simp
      show "store_wf (states P')" by (rule r(5))
      show "length ?sts \<le> length (states P')" using r(4) by simp
      show "nfa_edges ?sts \<subseteq> nfa_edges (states P')" by (rule sub)
      show "nfa_ends ?sts - nfa_end ` set [b, a] \<subseteq> nfa_ends (states P')" using r(7) by auto
      show "frag_ok (states P') ?f"
        using fa fb d r(4,7) rtrancl_trans [OF reach_mono [OF fa(4) sub] ab]
        by (simp add: frag_ok_def)
      show "nfa_end ?f \<notin> nfa_end ` set stk" using d by simp
      show "\<forall>u \<in> set [b, a]. (nfa_end u, nfa_end ?f) \<in> (nfa_step (states P'))\<^sup>*"
        using ab by simp
      show "\<forall>p. length ?sts \<le> p \<and> p < length (states P') \<longrightarrow>
          (\<exists>g \<in> set (?f # stk). (p, nfa_end g) \<in> (nfa_step (states P'))\<^sup>*)"
        using r(4) by auto
    qed
    then show thesis using that r by blast
  qed
qed

lemma NewNfaFromUnion_inv:
  assumes inv: "stack_inv (states P) (b # a # stk)"
  obtains P' f where "NewNfaFromUnion a b P = Inr (P', f)" "nfa_stack P' = nfa_stack P"
    "op_stack P' = op_stack P" "stack_inv (states P') (f # stk)"
proof -
  let ?sts = "states P"
  let ?n = "length ?sts"
  note fa = stack_inv_frag [OF inv, of a, simplified]
  note fb = stack_inv_frag [OF inv, of b, simplified]
  let ?f = "\<lparr>nfa_start = ?n, nfa_end = Suc ?n, nfa_size = nfa_size a + nfa_size b + 2\<rparr>"
  show thesis
  proof (rule NewNfaFromUnion_raw [OF stack_inv_wf [OF inv] fa(1,2) fb(1,2)])
    fix P'
    assume r: "NewNfaFromUnion a b P = Inr (P', ?f)"
      "nfa_stack P' = nfa_stack P" "op_stack P' = op_stack P"
      "length (states P') = ?n + 2" "store_wf (states P')"
      "nfa_edges (states P') = nfa_edges ?sts \<union>
         {(?n, EPSILON, nfa_start a), (?n, EPSILON, nfa_start b),
          (nfa_end a, EPSILON, Suc ?n), (nfa_end b, EPSILON, Suc ?n)}"
      "nfa_ends (states P') = insert (Suc ?n) (nfa_ends ?sts) - {nfa_end a, nfa_end b}"
    have sub: "nfa_edges ?sts \<subseteq> nfa_edges (states P')" using r(6) by auto
    have e1: "(?n, EPSILON, nfa_start a) \<in> nfa_edges (states P')"
      and e3: "(nfa_end a, EPSILON, Suc ?n) \<in> nfa_edges (states P')"
      and e4: "(nfa_end b, EPSILON, Suc ?n) \<in> nfa_edges (states P')" using r(6) by simp_all
    have sf: "(?n, Suc ?n) \<in> (nfa_step (states P'))\<^sup>*"
      by (rule edge_reach [OF e1 reach_edge [OF reach_mono [OF fa(4) sub] e3]])
    have "stack_inv (states P') (?f # stk)"
    proof (rule stack_inv_extend [where used = "[b, a]" and sts = ?sts])
      show "stack_inv ?sts ([b, a] @ stk)" using inv by simp
      show "store_wf (states P')" by (rule r(5))
      show "length ?sts \<le> length (states P')" using r(4) by simp
      show "nfa_edges ?sts \<subseteq> nfa_edges (states P')" by (rule sub)
      show "nfa_ends ?sts - nfa_end ` set [b, a] \<subseteq> nfa_ends (states P')" using r(7) by auto
      show "frag_ok (states P') ?f"
        using fa fb r(4,7) sf by (simp add: frag_ok_def)
      show "nfa_end ?f \<notin> nfa_end ` set stk"
        using stack_inv_ends_lt [OF inv, of "Suc ?n"] by auto
      show "\<forall>u \<in> set [b, a]. (nfa_end u, nfa_end ?f) \<in> (nfa_step (states P'))\<^sup>*"
        using rtrancl_step1 [OF e3] rtrancl_step1 [OF e4] by simp
      show "\<forall>p. length ?sts \<le> p \<and> p < length (states P') \<longrightarrow>
          (\<exists>g \<in> set (?f # stk). (p, nfa_end g) \<in> (nfa_step (states P'))\<^sup>*)"
      proof (intro allI impI)
        fix p assume "?n \<le> p \<and> p < length (states P')"
        then have "p = ?n \<or> p = Suc ?n" using r(4) by auto
        then have "(p, Suc ?n) \<in> (nfa_step (states P'))\<^sup>*" using sf by auto
        then show "\<exists>g \<in> set (?f # stk). (p, nfa_end g) \<in> (nfa_step (states P'))\<^sup>*" by simp
      qed
    qed
    then show thesis using that r by blast
  qed
qed

lemma fresh_pair_inv:
  assumes inv: "stack_inv sts (used @ stk)"
    and wf: "store_wf sts'" and len: "length sts' = length sts + 2"
    and edges: "nfa_edges sts \<subseteq> nfa_edges sts'"
    and ends: "insert (Suc (length sts)) (nfa_ends sts) - nfa_end ` set used \<subseteq> nfa_ends sts'"
    and st: "start = length sts \<or> start < length sts"
    and se: "(start, Suc (length sts)) \<in> (nfa_step sts')\<^sup>*"
    and ne: "(length sts, Suc (length sts)) \<in> (nfa_step sts')\<^sup>*"
    and link: "\<forall>u \<in> set used. (nfa_end u, Suc (length sts)) \<in> (nfa_step sts')\<^sup>*"
  shows "stack_inv sts' (\<lparr>nfa_start = start, nfa_end = Suc (length sts), nfa_size = k\<rparr> # stk)"
proof (rule stack_inv_extend [where used = used and sts = sts])
  let ?n = "length sts"
  let ?f = "\<lparr>nfa_start = start, nfa_end = Suc ?n, nfa_size = k\<rparr>"
  have nu: "Suc ?n \<notin> nfa_end ` set used"
    using stack_inv_ends_lt [OF inv, of "Suc ?n"] by auto
  show "stack_inv sts (used @ stk)" by (rule inv)
  show "store_wf sts'" by (rule wf)
  show "length sts \<le> length sts'" using len by simp
  show "nfa_edges sts \<subseteq> nfa_edges sts'" by (rule edges)
  show "nfa_ends sts - nfa_end ` set used \<subseteq> nfa_ends sts'" using ends by auto
  show "frag_ok sts' ?f" using st len ends se nu by (auto simp: frag_ok_def)
  show "nfa_end ?f \<notin> nfa_end ` set stk"
    using stack_inv_ends_lt [OF inv, of "Suc ?n"] by auto
  show "\<forall>u \<in> set used. (nfa_end u, nfa_end ?f) \<in> (nfa_step sts')\<^sup>*" using link by simp
  show "\<forall>p. ?n \<le> p \<and> p < length sts' \<longrightarrow> (\<exists>g \<in> set (?f # stk). (p, nfa_end g) \<in> (nfa_step sts')\<^sup>*)"
  proof (intro allI impI)
    fix p assume "?n \<le> p \<and> p < length sts'"
    then have "p = ?n \<or> p = Suc ?n" using len by auto
    then have "(p, Suc ?n) \<in> (nfa_step sts')\<^sup>*" using ne by auto
    then show "\<exists>g \<in> set (?f # stk). (p, nfa_end g) \<in> (nfa_step sts')\<^sup>*" by simp
  qed
qed

lemma NewNfaFromClosure_inv:
  assumes inv: "stack_inv (states P) (a # stk)"
  obtains P' f where "NewNfaFromClosure a P = Inr (P', f)" "nfa_stack P' = nfa_stack P"
    "op_stack P' = op_stack P" "stack_inv (states P') (f # stk)"
proof -
  let ?sts = "states P"
  let ?n = "length ?sts"
  note fa = stack_inv_frag [OF inv, of a, simplified]
  show thesis
  proof (rule NewNfaFromClosure_raw [OF stack_inv_wf [OF inv] fa(1,2)])
    fix P'
    assume r: "NewNfaFromClosure a P = Inr (P', \<lparr>nfa_start = ?n, nfa_end = Suc ?n, nfa_size = nfa_size a + 2\<rparr>)"
      "nfa_stack P' = nfa_stack P" "op_stack P' = op_stack P"
      "length (states P') = ?n + 2" "store_wf (states P')"
      "nfa_edges (states P') = nfa_edges ?sts \<union>
         {(nfa_end a, EPSILON, nfa_start a), (?n, EPSILON, nfa_start a),
          (nfa_end a, EPSILON, Suc ?n), (?n, EPSILON, Suc ?n)}"
      "nfa_ends (states P') = insert (Suc ?n) (nfa_ends ?sts) - {nfa_end a}"
    have e3: "(nfa_end a, EPSILON, Suc ?n) \<in> nfa_edges (states P')"
      and e4: "(?n, EPSILON, Suc ?n) \<in> nfa_edges (states P')" using r(6) by simp_all
    have "stack_inv (states P') (\<lparr>nfa_start = ?n, nfa_end = Suc ?n, nfa_size = nfa_size a + 2\<rparr> # stk)"
    proof (rule fresh_pair_inv [where used = "[a]"])
      show "stack_inv ?sts ([a] @ stk)" using inv by simp
      show "nfa_edges ?sts \<subseteq> nfa_edges (states P')" using r(6) by auto
      show "insert (Suc ?n) (nfa_ends ?sts) - nfa_end ` set [a] \<subseteq> nfa_ends (states P')"
        using r(7) by auto
      show "\<forall>u \<in> set [a]. (nfa_end u, Suc ?n) \<in> (nfa_step (states P'))\<^sup>*"
        using rtrancl_step1 [OF e3] by simp
    qed (use r rtrancl_step1 [OF e4] in simp_all)
    then show thesis using that r by blast
  qed
qed

lemma NewNfaFromOptional_inv:
  assumes inv: "stack_inv (states P) (a # stk)"
  obtains P' f where "NewNfaFromOptional a P = Inr (P', f)" "nfa_stack P' = nfa_stack P"
    "op_stack P' = op_stack P" "stack_inv (states P') (f # stk)"
proof -
  let ?sts = "states P"
  let ?n = "length ?sts"
  note fa = stack_inv_frag [OF inv, of a, simplified]
  show thesis
  proof (rule NewNfaFromOptional_raw [OF stack_inv_wf [OF inv] fa(1,2)])
    fix P'
    assume r: "NewNfaFromOptional a P = Inr (P', \<lparr>nfa_start = ?n, nfa_end = Suc ?n, nfa_size = nfa_size a + 2\<rparr>)"
      "nfa_stack P' = nfa_stack P" "op_stack P' = op_stack P"
      "length (states P') = ?n + 2" "store_wf (states P')"
      "nfa_edges (states P') = nfa_edges ?sts \<union>
         {(?n, EPSILON, nfa_start a), (nfa_end a, EPSILON, Suc ?n), (?n, EPSILON, Suc ?n)}"
      "nfa_ends (states P') = insert (Suc ?n) (nfa_ends ?sts) - {nfa_end a}"
    have e3: "(nfa_end a, EPSILON, Suc ?n) \<in> nfa_edges (states P')"
      and e4: "(?n, EPSILON, Suc ?n) \<in> nfa_edges (states P')" using r(6) by simp_all
    have "stack_inv (states P') (\<lparr>nfa_start = ?n, nfa_end = Suc ?n, nfa_size = nfa_size a + 2\<rparr> # stk)"
    proof (rule fresh_pair_inv [where used = "[a]"])
      show "stack_inv ?sts ([a] @ stk)" using inv by simp
      show "nfa_edges ?sts \<subseteq> nfa_edges (states P')" using r(6) by auto
      show "insert (Suc ?n) (nfa_ends ?sts) - nfa_end ` set [a] \<subseteq> nfa_ends (states P')"
        using r(7) by auto
      show "\<forall>u \<in> set [a]. (nfa_end u, Suc ?n) \<in> (nfa_step (states P'))\<^sup>*"
        using rtrancl_step1 [OF e3] by simp
    qed (use r rtrancl_step1 [OF e4] in simp_all)
    then show thesis using that r by blast
  qed
qed

lemma NewNfaFromSymbols_inv:
  assumes inv: "stack_inv (states P) stk" and ne: "map_n chs \<noteq> 0 \<longrightarrow> set_items chs \<noteq> []"
  obtains P' f where "NewNfaFromSymbols chs P = Inr (P', f)" "nfa_stack P' = nfa_stack P"
    "op_stack P' = op_stack P" "stack_inv (states P') (f # stk)"
proof -
  let ?sts = "states P"
  let ?n = "length ?sts"
  show thesis
  proof (rule NewNfaFromSymbols_raw [OF stack_inv_wf [OF inv] ne])
    fix P' cs
    assume r: "NewNfaFromSymbols chs P = Inr (P', \<lparr>nfa_start = ?n, nfa_end = Suc ?n, nfa_size = 2\<rparr>)"
      "nfa_stack P' = nfa_stack P" "op_stack P' = op_stack P"
      "length (states P') = ?n + 2" "store_wf (states P')" "cs \<noteq> []"
      "nfa_edges (states P') = nfa_edges ?sts \<union> (\<lambda>c. (?n, c, Suc ?n)) ` set cs"
      "nfa_ends (states P') = insert (Suc ?n) (nfa_ends ?sts)"
    obtain c where "c \<in> set cs" using r(6) by (cases cs) auto
    then have e: "(?n, c, Suc ?n) \<in> nfa_edges (states P')" using r(7) by simp
    have "stack_inv (states P') (\<lparr>nfa_start = ?n, nfa_end = Suc ?n, nfa_size = 2\<rparr> # stk)"
    proof (rule fresh_pair_inv [where used = "[]"])
      show "stack_inv ?sts ([] @ stk)" using inv by simp
      show "nfa_edges ?sts \<subseteq> nfa_edges (states P')" using r(7) by auto
      show "insert (Suc ?n) (nfa_ends ?sts) - nfa_end ` set [] \<subseteq> nfa_ends (states P')"
        using r(8) by auto
    qed (use r rtrancl_step1 [OF e] in simp_all)
    then show thesis using that r by blast
  qed
qed

lemma NewNfaFromPlus_inv:
  assumes inv: "stack_inv (states P) (a # stk)"
  obtains P' f where "NewNfaFromPlus a P = Inr (P', f)" "nfa_stack P' = nfa_stack P"
    "op_stack P' = op_stack P" "stack_inv (states P') (f # stk)"
proof -
  let ?sts = "states P"
  let ?n = "length ?sts"
  let ?p = "\<lparr>nfa_start = ?n, nfa_end = Suc ?n, nfa_size = nfa_size a + 2\<rparr>"
  note fa = stack_inv_frag [OF inv, of a, simplified]
  show thesis
  proof (rule NewNfaFromClosure_raw [OF stack_inv_wf [OF inv] fa(1,2)])
    fix P1
    assume r: "NewNfaFromClosure a P = Inr (P1, ?p)"
      "nfa_stack P1 = nfa_stack P" "op_stack P1 = op_stack P"
      "length (states P1) = ?n + 2" "store_wf (states P1)"
      "nfa_edges (states P1) = nfa_edges ?sts \<union>
         {(nfa_end a, EPSILON, nfa_start a), (?n, EPSILON, nfa_start a),
          (nfa_end a, EPSILON, Suc ?n), (?n, EPSILON, Suc ?n)}"
      "nfa_ends (states P1) = insert (Suc ?n) (nfa_ends ?sts) - {nfa_end a}"
    have l1: "nfa_end a < length (states P1)" "nfa_start ?p < length (states P1)"
      using fa r(4) by simp_all
    show thesis
    proof (rule NewNfaFromConcat_raw [OF r(5) l1])
      fix P2
      let ?f = "\<lparr>nfa_start = nfa_start a, nfa_end = nfa_end ?p, nfa_size = nfa_size a + nfa_size ?p\<rparr>"
      assume c: "NewNfaFromConcat a ?p P1 = Inr (P2, ?f)"
        "nfa_stack P2 = nfa_stack P1" "op_stack P2 = op_stack P1"
        "length (states P2) = length (states P1)" "store_wf (states P2)"
        "nfa_edges (states P2) = insert (nfa_end a, EPSILON, nfa_start ?p) (nfa_edges (states P1))"
        "nfa_ends (states P2) = nfa_ends (states P1) - {nfa_end a}"
      have sub: "nfa_edges ?sts \<subseteq> nfa_edges (states P2)" using r(6) c(6) by auto
      have e3: "(nfa_end a, EPSILON, Suc ?n) \<in> nfa_edges (states P2)"
        and e4: "(?n, EPSILON, Suc ?n) \<in> nfa_edges (states P2)" using r(6) c(6) by simp_all
      have "stack_inv (states P2) (\<lparr>nfa_start = nfa_start a, nfa_end = Suc ?n,
              nfa_size = nfa_size a + nfa_size ?p\<rparr> # stk)"
      proof (rule fresh_pair_inv [where used = "[a]"])
        show "stack_inv ?sts ([a] @ stk)" using inv by simp
        show "nfa_edges ?sts \<subseteq> nfa_edges (states P2)" by (rule sub)
        show "insert (Suc ?n) (nfa_ends ?sts) - nfa_end ` set [a] \<subseteq> nfa_ends (states P2)"
          using r(7) c(7) by auto
        show "\<forall>u \<in> set [a]. (nfa_end u, Suc ?n) \<in> (nfa_step (states P2))\<^sup>*"
          using rtrancl_step1 [OF e3] by simp
        show "(nfa_start a, Suc ?n) \<in> (nfa_step (states P2))\<^sup>*"
          by (rule reach_edge [OF reach_mono [OF fa(4) sub] e3])
        show "nfa_start a = ?n \<or> nfa_start a < ?n" using fa by simp
      qed (use r c rtrancl_step1 [OF e4] in simp_all)
      moreover have "NewNfaFromPlus a P = Inr (P2, ?f)"
        using r(1) c(1) by (simp add: NewNfaFromPlus_def)
      ultimately show thesis using that r c by simp
    qed
  qed
qed

lemma parser_inv_op_stack [simp]: "parser_inv (P\<lparr>op_stack := ops\<rparr>) = parser_inv P"
  by (simp add: parser_inv_def)

lemma unary_step:
  assumes inv: "parser_inv P"
    and F: "\<And>a stk Q. stack_inv (states Q) (a # stk) \<Longrightarrow>
        \<exists>Q' f. F a Q = Inr (Q', f) \<and> nfa_stack Q' = nfa_stack Q \<and> op_stack Q' = op_stack Q \<and>
          stack_inv (states Q') (f # stk)"
    and r: "bind_e (nfa_pop P) (\<lambda>(P1, a). bind_e (F a P1) nfa_push) = Inr P'"
  shows "parser_inv P'"
proof (cases "nfa_stack P")
  case Nil
  then show ?thesis using r by (simp add: nfa_pop_def)
next
  case (Cons a stk)
  let ?P1 = "P\<lparr>nfa_stack := stk\<rparr>"
  have "stack_inv (states ?P1) (a # stk)" using inv Cons by (simp add: parser_inv_def)
  from F [OF this] obtain Q' f where q: "F a ?P1 = Inr (Q', f)" "nfa_stack Q' = stk"
    "stack_inv (states Q') (f # stk)" by auto
  have "P' = Q'\<lparr>nfa_stack := f # stk\<rparr>"
    using r Cons q by (simp add: nfa_pop_def nfa_push_def)
  then show ?thesis using q by (simp add: parser_inv_def)
qed

lemma binary_step:
  assumes inv: "parser_inv P"
    and F: "\<And>a b stk Q. stack_inv (states Q) (b # a # stk) \<Longrightarrow>
        \<exists>Q' f. F a b Q = Inr (Q', f) \<and> nfa_stack Q' = nfa_stack Q \<and> op_stack Q' = op_stack Q \<and>
          stack_inv (states Q') (f # stk)"
    and r: "bind_e (nfa_pop P) (\<lambda>(P1, b). bind_e (nfa_pop P1) (\<lambda>(P2, a).
               bind_e (F a b P2) nfa_push)) = Inr P'"
  shows "parser_inv P'"
proof (cases "nfa_stack P")
  case Nil
  then show ?thesis using r by (simp add: nfa_pop_def)
next
  case (Cons b stk1)
  show ?thesis
  proof (cases stk1)
    case Nil
    then show ?thesis using r Cons by (simp add: nfa_pop_def)
  next
    case (Cons a stk)
    let ?P2 = "P\<lparr>nfa_stack := stk\<rparr>"
    have "stack_inv (states ?P2) (b # a # stk)"
      using inv Cons \<open>nfa_stack P = b # stk1\<close> by (simp add: parser_inv_def)
    from F [OF this] obtain Q' f where q: "F a b ?P2 = Inr (Q', f)" "nfa_stack Q' = stk"
      "stack_inv (states Q') (f # stk)" by auto
    have "P' = Q'\<lparr>nfa_stack := f # stk\<rparr>"
      using r Cons \<open>nfa_stack P = b # stk1\<close> q by (simp add: nfa_pop_def nfa_push_def)
    then show ?thesis using q by (simp add: parser_inv_def)
  qed
qed

lemma Calc_inv:
  assumes inv: "parser_inv P" and r: "Calc P = Inr P'"
  shows "parser_inv P'"
proof (cases "op_stack P")
  case Nil
  then show ?thesis using inv r by (simp add: Calc_def)
next
  case (Cons op ops)
  let ?P0 = "P\<lparr>op_stack := ops\<rparr>"
  have i0: "parser_inv ?P0" using inv by simp
  consider "op = OP_CLOSURE" | "op \<noteq> OP_CLOSURE" "op = OP_CONCAT"
    | "op \<noteq> OP_CLOSURE" "op \<noteq> OP_CONCAT" "op = OP_UNION"
    | "op \<noteq> OP_CLOSURE" "op \<noteq> OP_CONCAT" "op \<noteq> OP_UNION" "op = OP_PLUS"
    | "op \<noteq> OP_CLOSURE" "op \<noteq> OP_CONCAT" "op \<noteq> OP_UNION" "op \<noteq> OP_PLUS" "op = OP_OPTIONAL"
    | "op \<noteq> OP_CLOSURE" "op \<noteq> OP_CONCAT" "op \<noteq> OP_UNION" "op \<noteq> OP_PLUS" "op \<noteq> OP_OPTIONAL"
    by blast
  then show ?thesis
  proof cases
    case 1
    then have "bind_e (nfa_pop ?P0) (\<lambda>(P1, a). bind_e (NewNfaFromClosure a P1) nfa_push) = Inr P'"
      using r Cons by (simp add: Calc_def)
    then show ?thesis
      by (rule unary_step [OF i0, rotated]) (metis NewNfaFromClosure_inv)
  next
    case 2
    then have "bind_e (nfa_pop ?P0) (\<lambda>(P1, b). bind_e (nfa_pop P1) (\<lambda>(P2, a).
               bind_e (NewNfaFromConcat a b P2) nfa_push)) = Inr P'"
      using r Cons by (simp add: Calc_def)
    then show ?thesis
      by (rule binary_step [OF i0, rotated]) (metis NewNfaFromConcat_inv)
  next
    case 3
    then have "bind_e (nfa_pop ?P0) (\<lambda>(P1, b). bind_e (nfa_pop P1) (\<lambda>(P2, a).
               bind_e (NewNfaFromUnion a b P2) nfa_push)) = Inr P'"
      using r Cons by (simp add: Calc_def)
    then show ?thesis
      by (rule binary_step [OF i0, rotated]) (metis NewNfaFromUnion_inv)
  next
    case 4
    then have "bind_e (nfa_pop ?P0) (\<lambda>(P1, a). bind_e (NewNfaFromPlus a P1) nfa_push) = Inr P'"
      using r Cons by (simp add: Calc_def)
    then show ?thesis
      by (rule unary_step [OF i0, rotated]) (metis NewNfaFromPlus_inv)
  next
    case 5
    then have "bind_e (nfa_pop ?P0) (\<lambda>(P1, a). bind_e (NewNfaFromOptional a P1) nfa_push) = Inr P'"
      using r Cons by (simp add: Calc_def)
    then show ?thesis
      by (rule unary_step [OF i0, rotated]) (metis NewNfaFromOptional_inv)
  next
    case 6
    then have "P' = ?P0" using r Cons by (simp add: Calc_def)
    then show ?thesis using i0 by simp
  qed
qed

lemma calc_while_inv: "parser_inv P \<Longrightarrow> calc_while op P = Inr P' \<Longrightarrow> parser_inv P'"
proof (induction op P rule: calc_while.induct)
  case (1 op P)
  show ?case
  proof (cases "op_stack P")
    case Nil
    then show ?thesis using 1 by (simp add: calc_while.simps [of op P])
  next
    case (Cons t ts)
    show ?thesis
    proof (cases "IsCalculationOperator t \<and> GetOperatorPriority op \<le> GetOperatorPriority t")
      case True
      then obtain P1 where c: "Calc P = Inr P1" "calc_while op P1 = Inr P'"
        using "1.prems"(2) Cons by (auto simp: calc_while.simps [of op P] split: sum.splits)
      have "parser_inv P1" by (rule Calc_inv [OF "1.prems"(1) c(1)])
      then show ?thesis using "1.IH" [OF Cons True c(1)] c(2) by simp
    next
      case False
      then show ?thesis using 1 Cons by (auto simp: calc_while.simps [of op P])
    qed
  qed
qed

lemma calc_until_left_inv: "parser_inv P \<Longrightarrow> calc_until_left P = Inr P' \<Longrightarrow> parser_inv P'"
proof (induction P rule: calc_until_left.induct)
  case (1 P)
  show ?case
  proof (cases "op_stack P")
    case Nil
    then show ?thesis using 1 by (simp add: calc_until_left.simps [of P])
  next
    case (Cons t ts)
    show ?thesis
    proof (cases "t \<noteq> OP_LEFT_PAIR")
      case True
      then obtain P1 where c: "Calc P = Inr P1" "calc_until_left P1 = Inr P'"
        using "1.prems"(2) Cons by (auto simp: calc_until_left.simps [of P] split: sum.splits)
      have "parser_inv P1" by (rule Calc_inv [OF "1.prems"(1) c(1)])
      then show ?thesis using "1.IH" [OF Cons True c(1)] c(2) by simp
    next
      case False
      then show ?thesis using 1 Cons by (auto simp: calc_until_left.simps [of P])
    qed
  qed
qed

lemma calc_all_inv: "parser_inv P \<Longrightarrow> calc_all P = Inr P' \<Longrightarrow> parser_inv P'"
proof (induction P rule: calc_all.induct)
  case (1 P)
  show ?case
  proof (cases "op_stack P")
    case Nil
    then show ?thesis using 1 by (simp add: calc_all.simps [of P])
  next
    case (Cons t ts)
    then obtain P1 where c: "Calc P = Inr P1" "calc_all P1 = Inr P'"
      using "1.prems"(2) by (auto simp: calc_all.simps [of P] split: sum.splits)
    have "parser_inv P1" by (rule Calc_inv [OF "1.prems"(1) c(1)])
    then show ?thesis using "1.IH" [OF Cons c(1)] c(2) by simp
  qed
qed

lemma range_loop_inv_aux:
  "range_loop x e chs = Some y \<Longrightarrow> \<forall>r. y = Inr r \<longrightarrow> map_inv chs \<longrightarrow> map_inv r"
proof (induction rule: range_loop.raw_induct [rotated, consumes 1])
  case (1 f x e chs y)
  show ?case
  proof (intro allI impI)
    fix r assume y: "y = Inr r" and i: "map_inv chs"
    show "map_inv r"
    proof (cases "sint x \<le> sint e")
      case True
      from set_add_ok [OF i, of hash_char x]
      obtain s' where s': "set_add hash_char chs x = Inr s'" "map_inv s'" by metis
      then have "f (x + 1) e s' = Some y" using 1(2) True by simp
      then show ?thesis using 1(1) y s'(2) by blast
    next
      case False
      then show ?thesis using 1(2) y i by simp
    qed
  qed
qed

lemma range_loop_inv:
  assumes "range_loop x e chs = Some (Inr chs')" "map_inv chs"
  shows "map_inv chs'"
  using range_loop_inv_aux [OF assms(1)] assms(2) by simp

lemma ranges_chs_inv: "ranges_chs rs chs = Some (Inr chs') \<Longrightarrow> map_inv chs \<Longrightarrow> map_inv chs'"
proof (induction rs arbitrary: chs)
  case Nil
  then show ?case by simp
next
  case (Cons r rs)
  obtain s e where r: "r = (s, e)" by (cases r)
  from Cons.prems(1) obtain c1 where c1: "range_loop s e chs = Some (Inr c1)"
    "ranges_chs rs c1 = Some (Inr chs')"
    by (auto simp: r split: option.splits sum.splits)
  show ?case by (rule Cons.IH [OF c1(2) range_loop_inv [OF c1(1) Cons.prems(2)]])
qed

lemma map_inv_nonempty_items: "map_inv s \<Longrightarrow> map_n s \<noteq> 0 \<longrightarrow> set_items s \<noteq> []"
  by (simp add: set_items_def map_n_items)

lemma NewNfaFromRanges_inv:
  assumes inv: "stack_inv (states P) stk" and r: "NewNfaFromRanges ranges P = Some res"
  obtains e where "res = Inl e"
  | P' f where "res = Inr (P', f)" "nfa_stack P' = nfa_stack P"
    "op_stack P' = op_stack P" "stack_inv (states P') (f # stk)"
proof (cases "ranges_chs ranges map_empty")
  case None
  then show ?thesis using r by (simp add: NewNfaFromRanges_def)
next
  case (Some x)
  show ?thesis
  proof (cases x)
    case (Inl e)
    then have "res = Inl e" using r Some by (simp add: NewNfaFromRanges_def)
    then show ?thesis by (rule that(1))
  next
    case (Inr chs)
    have "map_inv chs" using ranges_chs_inv [of ranges map_empty chs] Some Inr map_inv_empty by blast
    then have ne: "map_n chs \<noteq> 0 \<longrightarrow> set_items chs \<noteq> []" by (rule map_inv_nonempty_items)
    have res: "res = NewNfaFromSymbols chs P" using r Some Inr by (simp add: NewNfaFromRanges_def)
    show ?thesis
      by (rule NewNfaFromSymbols_inv [OF inv ne]) (use res that(2) in auto)
  qed
qed

lemma parser_inv_push:
  "stack_inv (states P') (f # nfa_stack P) \<Longrightarrow> nfa_stack P' = nfa_stack P \<Longrightarrow> nfa_push (P', f) = Inr Q
   \<Longrightarrow> parser_inv Q"
  by (auto simp: nfa_push_def parser_inv_def)

lemma symbol_push_inv:
  assumes "parser_inv P" "bind_e (NewNfaFromSymbol c P) nfa_push = Inr Q"
  shows "parser_inv Q"
proof (rule NewNfaFromSymbol_ok [of P c])
  show "stack_inv (states P) (nfa_stack P)" using assms(1) by (simp add: parser_inv_def)
next
  fix P' f
  assume "NewNfaFromSymbol c P = Inr (P', f)" "nfa_stack P' = nfa_stack P"
    "op_stack P' = op_stack P" "stack_inv (states P') (f # nfa_stack P)"
  then show "parser_inv Q" using assms(2) parser_inv_push by auto
qed

lemma parse_loop_inv: "parser_inv P \<Longrightarrow> parse_loop s P = Some (Inr P') \<Longrightarrow> parser_inv P'"
proof (induction s P rule: parse_loop.induct)
  case (1 P)
  then show ?case by simp
next
  case (2 x xs P)
  note inv = "2.prems"(1) and r = "2.prems"(2)
  consider
    (op) "x = OP_CONCAT \<or> x = OP_UNION \<or> x = OP_PLUS \<or> x = OP_OPTIONAL \<or> x = OP_CLOSURE"
    | (left) "\<not> (x = OP_CONCAT \<or> x = OP_UNION \<or> x = OP_PLUS \<or> x = OP_OPTIONAL \<or> x = OP_CLOSURE)"
        "x = OP_LEFT_PAIR"
    | (right) "\<not> (x = OP_CONCAT \<or> x = OP_UNION \<or> x = OP_PLUS \<or> x = OP_OPTIONAL \<or> x = OP_CLOSURE)"
        "x \<noteq> OP_LEFT_PAIR" "x = OP_RIGHT_PAIR"
    | (range) "\<not> (x = OP_CONCAT \<or> x = OP_UNION \<or> x = OP_PLUS \<or> x = OP_OPTIONAL \<or> x = OP_CLOSURE)"
        "x \<noteq> OP_LEFT_PAIR" "x \<noteq> OP_RIGHT_PAIR" "x = OP_RANGE_START"
    | (rend) "\<not> (x = OP_CONCAT \<or> x = OP_UNION \<or> x = OP_PLUS \<or> x = OP_OPTIONAL \<or> x = OP_CLOSURE)"
        "x \<noteq> OP_LEFT_PAIR" "x \<noteq> OP_RIGHT_PAIR" "x \<noteq> OP_RANGE_START" "x = OP_RANGE_END"
    | (esc) "\<not> (x = OP_CONCAT \<or> x = OP_UNION \<or> x = OP_PLUS \<or> x = OP_OPTIONAL \<or> x = OP_CLOSURE)"
        "x \<noteq> OP_LEFT_PAIR" "x \<noteq> OP_RIGHT_PAIR" "x \<noteq> OP_RANGE_START" "x \<noteq> OP_RANGE_END"
        "x = BACKSLASH"
    | (sym) "\<not> (x = OP_CONCAT \<or> x = OP_UNION \<or> x = OP_PLUS \<or> x = OP_OPTIONAL \<or> x = OP_CLOSURE)"
        "x \<noteq> OP_LEFT_PAIR" "x \<noteq> OP_RIGHT_PAIR" "x \<noteq> OP_RANGE_START" "x \<noteq> OP_RANGE_END"
        "x \<noteq> BACKSLASH"
    by blast
  then show ?case
  proof cases
    case op
    then obtain P1 where c: "calc_while x P = Inr P1"
      "parse_loop xs (P1\<lparr>op_stack := x # op_stack P1\<rparr>) = Some (Inr P')"
      using r by (auto split: sum.splits)
    have "parser_inv (P1\<lparr>op_stack := x # op_stack P1\<rparr>)"
      using calc_while_inv [OF inv c(1)] by simp
    then show ?thesis using "2.IH"(1) [OF op c(1)] c(2) by simp
  next
    case left
    then have c: "parse_loop xs (P\<lparr>op_stack := x # op_stack P\<rparr>) = Some (Inr P')" using r by simp
    have "parser_inv (P\<lparr>op_stack := x # op_stack P\<rparr>)" using inv by simp
    then show ?thesis using "2.IH"(2) [OF left] c by simp
  next
    case right
    then obtain P1 where c: "bind_e (calc_until_left P) op_pop = Inr P1" "parse_loop xs P1 = Some (Inr P')"
      using r by (auto split: sum.splits)
    then obtain P0 where p0: "calc_until_left P = Inr P0" "op_pop P0 = Inr P1"
      by (cases "calc_until_left P") auto
    have "parser_inv P0" by (rule calc_until_left_inv [OF inv p0(1)])
    then have "parser_inv P1" using p0(2) by (auto simp: op_pop_def split: list.splits)
    then show ?thesis using "2.IH"(3) [OF right c(1)] c(2) by simp
  next
    case range
    then obtain res P1 where c: "NewNfaFromRanges (fst (class_loop xs EPSILON [])) P = Some res"
      "bind_e res nfa_push = Inr P1" "parse_loop (snd (class_loop xs EPSILON [])) P1 = Some (Inr P')"
      using r by (auto split: option.splits sum.splits)
    have si: "stack_inv (states P) (nfa_stack P)" using inv by (simp add: parser_inv_def)
    have "parser_inv P1"
    proof (rule NewNfaFromRanges_inv [OF si c(1)])
      fix e assume "res = Inl e"
      then show ?thesis using c(2) by simp
    next
      fix Q f assume "res = Inr (Q, f)" "nfa_stack Q = nfa_stack P" "op_stack Q = op_stack P"
        "stack_inv (states Q) (f # nfa_stack P)"
      then show ?thesis using c(2) parser_inv_push by auto
    qed
    then show ?thesis using "2.IH"(4) [OF range c(1) c(2)] c(3) by simp
  next
    case rend
    then have c: "parse_loop xs P = Some (Inr P')" using r by simp
    then show ?thesis using "2.IH"(5) [OF rend] inv by simp
  next
    case esc
    then obtain P1 where c: "bind_e (NewNfaFromSymbol (case xs of [] \<Rightarrow> 0 | y # ys \<Rightarrow> y) P) nfa_push = Inr P1"
      "parse_loop (tl xs) P1 = Some (Inr P')"
      using r by (auto split: sum.splits)
    have "parser_inv P1" by (rule symbol_push_inv [OF inv c(1)])
    then show ?thesis using "2.IH"(6) [OF esc c(1)] c(2) by simp
  next
    case sym
    then obtain P1 where c: "bind_e (NewNfaFromSymbol x P) nfa_push = Inr P1"
      "parse_loop xs P1 = Some (Inr P')"
      using r by (auto split: sum.splits)
    have "parser_inv P1" by (rule symbol_push_inv [OF inv c(1)])
    then show ?thesis using "2.IH"(7) [OF sym c(1)] c(2) by simp
  qed
qed

lemma parser_inv_new: "parser_inv NfaParser_new"
  by (simp add: parser_inv_def stack_inv_def NfaParser_new_def store_wf_def nfa_edges_def)

theorem Parse_inv:
  assumes "Parse s = Some (Inr (P, nfa))"
  shows "parser_inv P" "nfa \<in> set (nfa_stack P)"
proof -
  from assms obtain P0 P1 where p: "bind_e (NewNfaFromSymbol EPSILON NfaParser_new) nfa_push = Inr P0"
    "parse_loop (Normalize s) P0 = Some (Inr P1)" "calc_all P1 = Inr P"
    "nfa \<in> set (nfa_stack P)"
    by (auto simp: Parse_def Let_def split: sum.splits option.splits list.splits)
  have "parser_inv P0" by (rule symbol_push_inv [OF parser_inv_new p(1)])
  then have "parser_inv P1" using p(2) by (rule parse_loop_inv)
  then show "parser_inv P" using p(3) by (rule calc_all_inv)
  show "nfa \<in> set (nfa_stack P)" by (rule p(4))
qed

lemma store_wf_end_no_edge:
  assumes wf: "store_wf sts" and p: "p < length sts" and e: "st_is_end (sts ! p)"
  shows "map_items (nfa_transitions (sts ! p)) = []"
proof (rule ccontr)
  assume "map_items (nfa_transitions (sts ! p)) \<noteq> []"
  then obtain c tg where "(c, tg) \<in> set (map_items (nfa_transitions (sts ! p)))"
    by (cases "map_items (nfa_transitions (sts ! p))") auto
  moreover have mi: "map_inv (nfa_transitions (sts ! p))" using wf p by (simp add: store_wf_def)
  ultimately have l: "map_lookup (nfa_transitions (sts ! p)) c = Some tg"
    using map_items_distinct [OF mi] by (simp add: map_lookup_def)
  then have "set_elems tg \<noteq> {}" using wf p unfolding store_wf_def by blast
  then obtain t where "t \<in> set_elems tg" by auto
  then have "(p, c, t) \<in> nfa_edges sts" using l p by (simp add: nfa_edges_def nfa_delta_def)
  then have "p \<notin> nfa_ends sts" using wf unfolding store_wf_def by blast
  then show False using p e by (simp add: nfa_ends_def)
qed

lemma NfaState_AddTransition_clears:
  "NfaState_AddTransition sts p c t = Inr sts' \<Longrightarrow> p < length sts \<Longrightarrow> \<not> st_is_end (sts' ! p)"
  by (auto simp: NfaState_AddTransition_def split: sum.splits)

text \<open>
  Claim C9: every NFA built by the parser keeps accepting states free of outgoing transitions.
  In the store left by a successful \<^verbatim>\<open>Parse\<close> an accepting state has an empty transition table;
  \<^verbatim>\<open>NfaState::AddTransition\<close> always clears the accepting flag of its source state; and after
  \<^verbatim>\<open>NewNfaFromConcat(a, b)\<close> the state \<^verbatim>\<open>a.end\<close> is not accepting, the result being
  \<^verbatim>\<open>(a.start, b.end)\<close>.
\<close>

theorem accepting_states_have_no_transitions:
  "(\<forall>s P nfa. Parse s = Some (Inr (P, nfa)) \<longrightarrow>
      (\<forall>p < length (states P). st_is_end (states P ! p) \<longrightarrow>
         map_items (nfa_transitions (states P ! p)) = [])) \<and>
   (\<forall>sts p c t sts'. p < length sts \<longrightarrow> NfaState_AddTransition sts p c t = Inr sts' \<longrightarrow>
      \<not> st_is_end (sts' ! p)) \<and>
   (\<forall>a b P P' f. nfa_end a < length (states P) \<longrightarrow> NewNfaFromConcat a b P = Inr (P', f) \<longrightarrow>
      \<not> st_is_end (states P' ! nfa_end a) \<and> nfa_start f = nfa_start a \<and> nfa_end f = nfa_end b)"
proof (intro conjI allI impI)
  fix s P nfa p
  assume "Parse s = Some (Inr (P, nfa))" "p < length (states P)" "st_is_end (states P ! p)"
  then show "map_items (nfa_transitions (states P ! p)) = []"
    using Parse_inv(1) [of s P nfa] store_wf_end_no_edge
    by (simp add: parser_inv_def stack_inv_def)
next
  fix sts :: "NfaState list" and p c t sts'
  assume "p < length sts" "NfaState_AddTransition sts p c t = Inr sts'"
  then show "\<not> st_is_end (sts' ! p)" using NfaState_AddTransition_clears by blast
next
  fix a b P P' f
  assume a: "nfa_end a < length (states P)" and r: "NewNfaFromConcat a b P = Inr (P', f)"
  from r obtain sts' where s: "NfaState_AddTransition (states P) (nfa_end a) EPSILON (nfa_start b) = Inr sts'"
    "P' = P\<lparr>states := sts'\<rparr>"
    "f = \<lparr>nfa_start = nfa_start a, nfa_end = nfa_end b, nfa_size = nfa_size a + nfa_size b\<rparr>"
    by (auto simp: NewNfaFromConcat_def AddTransition_def bind_e_def split: sum.splits)
  show "\<not> st_is_end (states P' ! nfa_end a)"
    using NfaState_AddTransition_clears [OF s(1) a] s(2) by simp
  show "nfa_start f = nfa_start a" "nfa_end f = nfa_end b" using s(3) by simp_all
qed

text \<open>
  The three parts at concrete inputs: the store of the pattern \<^verbatim>\<open>ab\<close>, whose state 5 is accepting;
  a transition added to an accepting state; a concatenation of two one-state fragments.
\<close>

theorem accepting_states_have_no_transitions_witness:
  "Parse [0x61, 0x62] = Some (Inr demo_parse) \<and>
   st_is_end (states (fst demo_parse) ! 5) \<and>
   map_items (nfa_transitions (states (fst demo_parse) ! 5)) = [] \<and>
   NfaState_AddTransition demo_store 0 0x61 1 = Inr demo_added \<and>
   \<not> st_is_end (demo_added ! 0) \<and>
   NewNfaFromConcat \<lparr>nfa_start = 0, nfa_end = 0, nfa_size = 1\<rparr>
      \<lparr>nfa_start = 1, nfa_end = 1, nfa_size = 1\<rparr> (NfaParser_new\<lparr>states := demo_store\<rparr>) = Inr demo_concat \<and>
   \<not> st_is_end (states (fst demo_concat) ! 0) \<and> nfa_end (snd demo_concat) = 1"
proof -
  note thm1 = accepting_states_have_no_transitions [THEN conjunct1, rule_format]
  note thm2 = accepting_states_have_no_transitions [THEN conjunct2, THEN conjunct1, rule_format]
  note thm3 = accepting_states_have_no_transitions [THEN conjunct2, THEN conjunct2, rule_format]
  have p: "Parse [0x61, 0x62] = Some (Inr demo_parse)" unfolding demo_parse_def by code_simp
  have l: "5 < length (states (fst demo_parse))" unfolding demo_parse_def by code_simp
  have e: "st_is_end (states (fst demo_parse) ! 5)" unfolding demo_parse_def by code_simp
  have p': "Parse [0x61, 0x62] = Some (Inr (fst demo_parse, snd demo_parse))" using p by simp
  have 1: "map_items (nfa_transitions (states (fst demo_parse) ! 5)) = []"
    by (rule thm1 [OF p' l e])
  have a: "NfaState_AddTransition demo_store 0 0x61 1 = Inr demo_added"
    unfolding demo_added_def demo_store_def by code_simp
  have la: "0 < length demo_store" by (simp add: demo_store_def)
  have 2: "\<not> st_is_end (demo_added ! 0)" by (rule thm2 [OF la a])
  have c: "NewNfaFromConcat \<lparr>nfa_start = 0, nfa_end = 0, nfa_size = 1\<rparr>
      \<lparr>nfa_start = 1, nfa_end = 1, nfa_size = 1\<rparr> (NfaParser_new\<lparr>states := demo_store\<rparr>) = Inr demo_concat"
    unfolding demo_concat_def demo_store_def by code_simp
  have c': "NewNfaFromConcat \<lparr>nfa_start = 0, nfa_end = 0, nfa_size = 1\<rparr>
      \<lparr>nfa_start = 1, nfa_end = 1, nfa_size = 1\<rparr> (NfaParser_new\<lparr>states := demo_store\<rparr>)
        = Inr (fst demo_concat, snd demo_concat)" using c by simp
  have lc: "nfa_end \<lparr>nfa_start = 0, nfa_end = 0, nfa_size = 1\<rparr> < length (states (NfaParser_new\<lparr>states := demo_store\<rparr>))"
    by (simp add: demo_store_def)
  note 3 = thm3 [OF lc c']
  show ?thesis using p e 1 a 2 c 3 by simp
qed






















lemma push_bottom_simps [simp]:
  "op_stack (push_bottom P) = op_stack P @ [OP_LEFT_PAIR]"
  "nfa_stack (push_bottom P) = nfa_stack P"
  "states (push_bottom P) = states P"
  by (simp_all add: push_bottom_def)
































lemma char_index_lt: "0 < A \<Longrightarrow> char_index A ch < A"
  by (simp add: char_index_def)

lemma fill_index_ok:
  assumes "0 < A" "length tmp = A"
  shows "\<exists>t. fill_index A i chs tmp = Inr t \<and> length t = A \<and>
     (\<forall>k < length chs. (\<forall>k' < length chs. k < k' \<longrightarrow> char_index A (chs ! k') \<noteq> char_index A (chs ! k))
          \<longrightarrow> t ! char_index A (chs ! k) = of_nat (i + k + 1)) \<and>
     (\<forall>x < A. x \<notin> char_index A ` set chs \<longrightarrow> t ! x = tmp ! x)"
  using assms
proof (induction chs arbitrary: i tmp)
  case Nil
  then show ?case by simp
next
  case (Cons ch rest)
  let ?tmp' = "tmp[char_index A ch := of_nat (i + 1)]"
  have lt: "char_index A ch < A" using Cons.prems(1) by (rule char_index_lt)
  have s: "arr_set tmp (char_index A ch) (of_nat (i + 1)) = Inr ?tmp'"
    using lt Cons.prems(2) by (simp add: arr_set_def)
  have l': "length ?tmp' = A" using Cons.prems(2) by simp
  from Cons.IH [OF Cons.prems(1) l', of "i + 1"]
  obtain t where t: "fill_index A (i + 1) rest ?tmp' = Inr t" "length t = A"
    "\<And>k. k < length rest \<Longrightarrow> (\<forall>k' < length rest. k < k' \<longrightarrow> char_index A (rest ! k') \<noteq> char_index A (rest ! k))
          \<Longrightarrow> t ! char_index A (rest ! k) = of_nat (i + 1 + k + 1)"
    "\<And>x. x < A \<Longrightarrow> x \<notin> char_index A ` set rest \<Longrightarrow> t ! x = ?tmp' ! x"
    by blast
  have r: "fill_index A i (ch # rest) tmp = Inr t" using s t(1) by simp
  have a: "t ! char_index A ((ch # rest) ! k) = of_nat (i + k + 1)"
    if k: "k < length (ch # rest)"
      and later: "\<forall>k' < length (ch # rest). k < k' \<longrightarrow> char_index A ((ch # rest) ! k') \<noteq> char_index A ((ch # rest) ! k)"
    for k
  proof (cases k)
    case 0
    have "char_index A ch \<notin> char_index A ` set rest"
    proof
      assume "char_index A ch \<in> char_index A ` set rest"
      then obtain m where m: "m < length rest" "char_index A (rest ! m) = char_index A ch"
        by (auto simp: in_set_conv_nth)
      then show False using later 0 by (auto dest: spec [of _ "Suc m"])
    qed
    then have "t ! char_index A ch = ?tmp' ! char_index A ch" using t(4) lt by blast
    then show ?thesis using 0 lt Cons.prems(2) by simp
  next
    case (Suc m)
    have m: "m < length rest" using k Suc by simp
    have "\<forall>k' < length rest. m < k' \<longrightarrow> char_index A (rest ! k') \<noteq> char_index A (rest ! m)"
    proof (intro allI impI)
      fix k' assume "k' < length rest" "m < k'"
      then show "char_index A (rest ! k') \<noteq> char_index A (rest ! m)"
        using later [rule_format, of "Suc k'"] Suc by simp
    qed
    from t(3) [OF m this] show ?thesis using Suc by simp
  qed
  have b: "t ! x = tmp ! x" if "x < A" "x \<notin> char_index A ` set (ch # rest)" for x
  proof -
    have "t ! x = ?tmp' ! x" using t(4) that by simp
    then show ?thesis using that by simp
  qed
  show ?case using r t(2) a b by blast
qed

text \<open>
  Claim C7, as the code has it: with \<^verbatim>\<open>AlphabetSize = 32\<close> the pattern \<^verbatim>\<open>aA\<close> has two accepted
  bytes, both at or above 32 and both congruent to 1 modulo 32. The constructor returns tables:
  slot 1 of the index table holds the index of \<^verbatim>\<open>A\<close> alone, and the frozen matcher accepts
  \<^verbatim>\<open>AA\<close>.
\<close>

theorem alphabet_overflow_compiles_counterexample:
  "Compile [0x61, 0x41] True 32 =
     Some (Inr \<lparr>fd_pre_index = True, fd_AlphabetSize = 32, fd_NStates = 3,
          fd_NChars = 2, fd_chs = [0x61, 0x41],
          fd_ch_index_table = (replicate 32 0)[1 := 2],
          fd_transitions = [[0, 2], [0, 3], [0, 0]],
          fd_st_is_end_table = [False, False, True]\<rparr>) \<and>
   FixedDfa_Match \<lparr>fd_pre_index = True, fd_AlphabetSize = 32, fd_NStates = 3,
          fd_NChars = 2, fd_chs = [0x61, 0x41],
          fd_ch_index_table = (replicate 32 0)[1 := 2],
          fd_transitions = [[0, 2], [0, 3], [0, 0]],
          fd_st_is_end_table = [False, False, True]\<rparr> [0x41, 0x41] = Inr True"
proof (intro conjI)
  show "Compile [0x61, 0x41] True 32 =
     Some (Inr \<lparr>fd_pre_index = True, fd_AlphabetSize = 32, fd_NStates = 3,
          fd_NChars = 2, fd_chs = [0x61, 0x41],
          fd_ch_index_table = (replicate 32 0)[1 := 2],
          fd_transitions = [[0, 2], [0, 3], [0, 0]],
          fd_st_is_end_table = [False, False, True]\<rparr>)"
    by code_simp
  show "FixedDfa_Match \<lparr>fd_pre_index = True, fd_AlphabetSize = 32, fd_NStates = 3,
          fd_NChars = 2, fd_chs = [0x61, 0x41],
          fd_ch_index_table = (replicate 32 0)[1 := 2],
          fd_transitions = [[0, 2], [0, 3], [0, 0]],
          fd_st_is_end_table = [False, False, True]\<rparr> [0x41, 0x41] = Inr True"
    by code_simp
qed

text \<open>
  Claim C7, amended. Filling the index table never fails and checks nothing: for a positive
  \<^verbatim>\<open>AlphabetSize\<close> the loop \<^verbatim>\<open>tmp[chs[i] % AlphabetSize] = i + 1\<close> returns a table of the same
  size for every list of bytes, whatever their values. The slot of a byte holds the index of
  that byte when no later byte of \<^verbatim>\<open>chs\<close> falls into the same slot, so of two bytes that collide
  the later silently takes the slot; a slot that no byte falls into is left as it was.
\<close>

theorem index_table_fill_never_fails:
  assumes "0 < A" "length tmp = A"
  shows "\<exists>t. fill_index A i chs tmp = Inr t \<and> length t = A \<and>
     (\<forall>k < length chs. (\<forall>k' < length chs. k < k' \<longrightarrow> char_index A (chs ! k') \<noteq> char_index A (chs ! k))
          \<longrightarrow> t ! char_index A (chs ! k) = of_nat (i + k + 1)) \<and>
     (\<forall>x < A. x \<notin> char_index A ` set chs \<longrightarrow> t ! x = tmp ! x)"
  using assms by (rule fill_index_ok)

theorem index_table_fill_never_fails_witness:
  "(0::nat) < 32 \<and> length (replicate 32 (0::8 word)) = 32 \<and>
   (\<exists>t. fill_index 32 0 [0x61, 0x41] (replicate 32 0) = Inr t \<and> length t = 32 \<and>
        char_index 32 0x61 = char_index 32 0x41 \<and> t ! char_index 32 0x41 = 2 \<and> t ! 0 = 0)"
proof -
  have a: "(0::nat) < 32" by simp
  have b: "length (replicate 32 (0::8 word)) = 32" by simp
  from index_table_fill_never_fails [OF a b, of 0 "[0x61, 0x41]"]
  obtain t where t: "fill_index 32 0 [0x61, 0x41] (replicate 32 0) = Inr t" "length t = 32"
    "\<forall>k < length [0x61 :: C, 0x41]. (\<forall>k' < length [0x61 :: C, 0x41]. k < k' \<longrightarrow>
        char_index 32 ([0x61, 0x41] ! k') \<noteq> char_index 32 ([0x61, 0x41] ! k))
          \<longrightarrow> t ! char_index 32 ([0x61, 0x41] ! k) = of_nat (0 + k + 1)"
    "\<forall>x < 32. x \<notin> char_index 32 ` set [0x61, 0x41] \<longrightarrow> t ! x = replicate 32 (0::8 word) ! x"
    by blast
  have c1: "char_index 32 0x61 = 1" by (simp add: char_index_def)
  have c2: "char_index 32 0x41 = 1" by (simp add: char_index_def)
  have "t ! char_index 32 ([0x61, 0x41] ! 1) = of_nat (0 + 1 + 1)"
    by (rule t(3) [rule_format]) (simp_all add: less_Suc_eq)
  then have 1: "t ! char_index 32 0x41 = 2" by simp
  have "t ! 0 = replicate 32 (0::8 word) ! 0"
    by (rule t(4) [rule_format]) (simp_all add: c1 c2)
  then have 2: "t ! 0 = 0" by simp
  show ?thesis using a b t(1) t(2) c1 c2 1 2 by auto
qed

lemma build_empty: "build [] = Some (Inr (empty_builder, empty_dfa))"
  unfolding empty_builder_def empty_dfa_def map_empty_def by code_simp

lemma FixedDfa_new_empty: "FixedDfa_new pre A (heap empty_builder) empty_dfa = Inr (empty_fd pre A)"
  by (simp add: FixedDfa_new_def empty_builder_def empty_dfa_def empty_fd_def map_empty_def
      set_items_def map_items_def fill_state_def index_minus1_def arr_set_def Let_def)

lemma Compile_empty: "Compile [] pre A = Some (Inr (empty_fd pre A))"
  by (simp add: Compile_def build_empty FixedDfa_new_empty)

lemma match_table_empty: "match_table (empty_fd pre A) = Inr (replicate A 0)"
  by (simp add: match_table_def empty_fd_def)

lemma Match_empty_fd:
  assumes "0 < A"
  shows "FixedDfa_Match (empty_fd pre A) s = Inr (s = [])"
proof (cases s)
  case Nil
  then show ?thesis
    by (simp add: FixedDfa_Match_def match_table_empty index_minus1_def arr_get_def)
       (simp add: empty_fd_def)
next
  case (Cons c s')
  have "char_index A c < A" using assms by (simp add: char_index_def)
  then have "arr_get (replicate A (0 :: 8 word)) (char_index A c) = Inr 0" by (simp add: arr_get_def)
  then have "match_loop (empty_fd pre A) (replicate A 0) 1 (c # s') = Inr (True, 1)"
    by (simp add: empty_fd_def)
  then show ?thesis by (simp add: Cons FixedDfa_Match_def match_table_empty)
qed

text \<open>
  Claim C2: for every positive alphabet size, with or without the persisted index table,
  compiling the empty pattern returns tables, and \<^verbatim>\<open>Match\<close> on them returns true on the empty
  input and false on every other input.
\<close>

theorem empty_pattern_accepts_only_empty:
  assumes "0 < A"
  shows "\<exists>fd. Compile [] pre A = Some (Inr fd) \<and> (\<forall>s. FixedDfa_Match fd s = Inr (s = []))"
  using Compile_empty [of pre A] Match_empty_fd [OF assms, of pre] by blast

theorem empty_pattern_accepts_only_empty_witness:
  "(0 :: nat) < 128 \<and>
   (\<exists>fd. Compile [] False 128 = Some (Inr fd) \<and> FixedDfa_Match fd [] = Inr True \<and>
         FixedDfa_Match fd [0x61] = Inr False \<and> FixedDfa_Match fd [0x00, 0xE1] = Inr False)"
proof -
  have a: "(0 :: nat) < 128" by simp
  from empty_pattern_accepts_only_empty [OF a, of False]
  obtain fd where fd: "Compile [] False 128 = Some (Inr fd)" "\<forall>s. FixedDfa_Match fd s = Inr (s = [])"
    by blast
  have "FixedDfa_Match fd [] = Inr True" "FixedDfa_Match fd [0x61] = Inr False"
    "FixedDfa_Match fd [0x00, 0xE1] = Inr False"
    using fd(2) by simp_all
  then show ?thesis using a fd(1) by blast
qed

end
